theory Spec2Isabelle
  imports Complex_Main "HOL-Library.Sublist" "HOL-Library.Log_Nat"
begin

section \<open>The log generator \<open>scripts/loggen-json.py\<close>\<close>

text \<open>
  The script is a single sequential program. Everything it takes from the outside world
  is an input of the model: the environment variable and the directory listing read by
  \<open>detect_log_file\<close>, the process id and host name, the readings of the clock, and the
  values returned by the random number generator. Python integers are \<open>int\<close> or \<open>nat\<close>,
  a Python float is the real number it denotes and every float operation rounds its exact
  result to binary64, exceptions are values of type \<open>exn\<close>.
\<close>

datatype exn = IndexError | OSError

subsection \<open>Python primitives used by the script\<close>

text \<open>\<open>sub in s\<close> on strings: \<open>sub\<close> occurs in \<open>s\<close> as a contiguous block.\<close>

fun contains :: "string \<Rightarrow> string \<Rightarrow> bool" where
  "contains sub [] = (sub = [])"
| "contains sub (c # cs) = (prefix sub (c # cs) \<or> contains sub cs)"

text \<open>
  \<open>str.lower()\<close>. The letters \<open>A\<close> to \<open>Z\<close> are mapped to \<open>a\<close> to \<open>z\<close>; every other byte is
  kept. (No character outside ASCII lowers to one of the letters of \<open>json\<close> or \<open>log\<close>, so
  the two membership tests of \<open>detect_log_file\<close> see the same answer.)
\<close>

definition lower_char :: "char \<Rightarrow> char" where
  "lower_char c =
     (case map_of (zip ''ABCDEFGHIJKLMNOPQRSTUVWXYZ'' ''abcdefghijklmnopqrstuvwxyz'') c of
        Some l \<Rightarrow> l
      | None \<Rightarrow> c)"

definition lower :: "string \<Rightarrow> string" where
  "lower s = map lower_char s"

text \<open>
  \<open>f"{n}"\<close> and \<open>f"{n:x}"\<close> for a non-negative integer: decimal and lowercase hex,
  most significant digit first, no leading zero.
\<close>

definition digit_char :: "nat \<Rightarrow> char" where
  "digit_char d = ''0123456789abcdef'' ! d"

fun format_d :: "nat \<Rightarrow> string" where
  "format_d n = (if n < 10 then [digit_char n]
                 else format_d (n div 10) @ [digit_char (n mod 10)])"

fun format_x :: "nat \<Rightarrow> string" where
  "format_x n = (if n < 16 then [digit_char n]
                 else format_x (n div 16) @ [digit_char (n mod 16)])"

declare format_d.simps [simp del] format_x.simps [simp del]

text \<open>\<open>a < b\<close> on strings: lexicographic by code point, a proper prefix is smaller.\<close>

fun str_less :: "string \<Rightarrow> string \<Rightarrow> bool" where
  "str_less [] [] = False"
| "str_less [] (b # bs) = True"
| "str_less (a # as) [] = False"
| "str_less (a # as) (b # bs) =
     ((of_char a :: nat) < of_char b \<or> (a = b \<and> str_less as bs))"

text \<open>\<open>int(x)\<close> on a float: truncation towards zero.\<close>

definition py_int :: "real \<Rightarrow> int" where
  "py_int x = (if 0 \<le> x then \<lfloor>x\<rfloor> else \<lceil>x\<rceil>)"

text \<open>
  Binary64 arithmetic. \<open>round_half_even\<close> is the integer nearest to \<open>y\<close>, the even one of
  the two when \<open>y\<close> lies halfway. \<open>ilog b x\<close> is the exponent \<open>e\<close> with
  \<open>b^e \<le> x < b^(e+1)\<close>, for \<open>x > 0\<close>. A binary64 number near \<open>x\<close> is a multiple of
  \<open>2^quantum x\<close>: 53 significant bits, and the fixed spacing \<open>2^-1074\<close> below the normal
  range. \<open>round64 x\<close> is the binary64 number nearest to \<open>x\<close>, ties to the even
  significand: the result of every float operation whose exact result is \<open>x\<close>, and the
  value of a float literal that reads \<open>x\<close>. (Magnitudes from \<open>2^1024\<close> on, where binary64 has
  an infinity, do not occur: no float of this program exceeds 300.)
\<close>

definition round_half_even :: "real \<Rightarrow> int" where
  "round_half_even y =
     (let f = \<lfloor>y\<rfloor>; r = y - of_int f
      in if r < 1/2 then f else if 1/2 < r then f + 1 else if even f then f else f + 1)"

definition ilog :: "nat \<Rightarrow> real \<Rightarrow> int" where
  "ilog b x =
     (if 1 \<le> x then int (floorlog b (nat \<lfloor>x\<rfloor>)) - 1
      else - int (floorlog b (nat (\<lceil>1 / x\<rceil> - 1))))"

definition quantum :: "real \<Rightarrow> int" where
  "quantum x = max (ilog 2 \<bar>x\<bar> - 52) (- 1074)"

definition round64 :: "real \<Rightarrow> real" where
  "round64 x =
     (if x = 0 then 0
      else of_int (round_half_even (x / 2 powi quantum x)) * 2 powi quantum x)"

text \<open>
  \<open>random.uniform(a, b)\<close> is \<open>a + (b - a) * self.random()\<close>, three float operations;
  \<open>u\<close> is the value of that \<open>random()\<close> call, a multiple of \<open>2^-53\<close> in \<open>[0, 1)\<close>.
\<close>

definition uniform :: "real \<Rightarrow> real \<Rightarrow> real \<Rightarrow> real" where
  "uniform a b u = round64 (a + round64 (round64 (b - a) * u))"

text \<open>
  \<open>random.choice(seq)\<close> is \<open>seq[self._randbelow(len(seq))]\<close> and raises \<open>IndexError\<close> on an
  empty sequence; \<open>k\<close> is the value of \<open>_randbelow(len(seq))\<close>, which lies below
  \<open>len(seq)\<close>, every index being equally likely.
\<close>

definition random_choice :: "'a list \<Rightarrow> nat \<Rightarrow> exn + 'a" where
  "random_choice seq k = (if k < length seq then Inr (seq ! k) else Inl IndexError)"

text \<open>
  \<open>list.sort(key=f, reverse=True)\<close> on keys already computed: the list is reversed,
  sorted by a stable ascending sort and reversed again, so that equal keys keep their
  order.
\<close>

definition sort_reverse :: "('k::linorder \<times> 'a) list \<Rightarrow> ('k \<times> 'a) list" where
  "sort_reverse kxs = rev (sort_key fst (rev kxs))"

subsection \<open>Output file: \<open>detect_log_file\<close>\<close>

text \<open>
  One entry of \<open>pathlib.Path("/logs").glob("*")\<close>: its name, the answer of \<open>is_file()\<close> and
  the answer of \<open>stat().st_mtime\<close>, each of which may raise.
\<close>

record dir_entry =
  name :: string
  is_file :: "exn + bool"
  st_mtime :: "exn + real"

definition logs_dir :: string where
  "logs_dir = ''/logs''"

text \<open>\<open>str(p)\<close> for an entry \<open>p\<close> of the listing of \<open>logs_dir\<close>.\<close>

definition path_str :: "dir_entry \<Rightarrow> string" where
  "path_str p = logs_dir @ ''/'' @ name p"

text \<open>\<open>len(paths) == 1 and paths[0].is_file()\<close>\<close>

definition single_file :: "dir_entry list \<Rightarrow> exn + bool" where
  "single_file paths = (if length paths = 1 then is_file (paths ! 0) else Inr False)"

definition looks_jsonish :: "string \<Rightarrow> bool" where
  "looks_jsonish n = (contains ''json'' (lower n) \<or> contains ''log'' (lower n))"

text \<open>
  \<open>[p for p in paths if p.is_file() and ("json" in p.name.lower() or "log" in p.name.lower())]\<close>
\<close>

fun jsonish_of :: "dir_entry list \<Rightarrow> exn + dir_entry list" where
  "jsonish_of [] = Inr []"
| "jsonish_of (p # ps) =
     (case is_file p of
        Inl e \<Rightarrow> Inl e
      | Inr f \<Rightarrow>
          (case jsonish_of ps of
             Inl e \<Rightarrow> Inl e
           | Inr js \<Rightarrow> Inr (if f \<and> looks_jsonish (name p) then p # js else js)))"

text \<open>The sort keys \<open>p.stat().st_mtime\<close>, computed for every element before sorting.\<close>

fun mtime_keys :: "dir_entry list \<Rightarrow> exn + (real \<times> dir_entry) list" where
  "mtime_keys [] = Inr []"
| "mtime_keys (p # ps) =
     (case st_mtime p of
        Inl e \<Rightarrow> Inl e
      | Inr t \<Rightarrow>
          (case mtime_keys ps of
             Inl e \<Rightarrow> Inl e
           | Inr kps \<Rightarrow> Inr ((t, p) # kps)))"

text \<open>
  The body of the \<open>try\<close> block. \<open>Inl e\<close>: an exception was raised; \<open>Inr (Some s)\<close>: the
  block returned \<open>s\<close>; \<open>Inr None\<close>: the block ran to its end without returning.
  The argument is the result of \<open>list(pathlib.Path(logs_dir).glob("*"))\<close>.
\<close>

definition try_block :: "exn + dir_entry list \<Rightarrow> exn + string option" where
  "try_block listing =
     (case listing of
        Inl e \<Rightarrow> Inl e
      | Inr paths \<Rightarrow>
          (case single_file paths of
             Inl e \<Rightarrow> Inl e
           | Inr True \<Rightarrow> Inr (Some (path_str (paths ! 0)))
           | Inr False \<Rightarrow>
               (case jsonish_of paths of
                  Inl e \<Rightarrow> Inl e
                | Inr jsonish \<Rightarrow>
                    if jsonish \<noteq> [] then
                      (case mtime_keys jsonish of
                         Inl e \<Rightarrow> Inl e
                       | Inr kps \<Rightarrow> Inr (Some (path_str (snd (sort_reverse kps ! 0)))))
                    else Inr None)))"

definition fallback :: string where
  "fallback = ''/logs/ft_transcendence.jsonl''"

text \<open>
  \<open>env\<close> is \<open>os.environ.get("LOG_FILE")\<close>: \<open>None\<close> when the variable is not set. The test
  \<open>if env:\<close> holds for a set, non-empty value. \<open>except Exception: pass\<close> leads to the
  fallback, as does leaving the \<open>try\<close> block without a return.
\<close>

definition detect_log_file :: "string option \<Rightarrow> exn + dir_entry list \<Rightarrow> string" where
  "detect_log_file env listing =
     (if env \<noteq> None \<and> the env \<noteq> [] then the env
      else (case try_block listing of
              Inl e \<Rightarrow> fallback
            | Inr (Some s) \<Rightarrow> s
            | Inr None \<Rightarrow> fallback))"

subsection \<open>Catalogs\<close>

definition ROUTES :: "(string \<times> int) list" where
  "ROUTES =
     [(''/'', 200),
      (''/css/output.css'', 200),
      (''/ts/app.js'', 200),
      (''/ts/gameModesRouter.js'', 404),
      (''/ts/localGame.js'', 200),
      (''/ts/login-register-form.js'', 200),
      (''/ts/authenticate.js'', 200),
      (''/ts/userProfile.js'', 200),
      (''/ts/gameUtils/drawBoard.js'', 200),
      (''/ts/gameUtils/websocketManager.js'', 200),
      (''/ts/gameUtils/inputHandler.js'', 200),
      (''/ts/gameUtils/gameRenderer.js'', 200),
      (''/ts/validateInput.js'', 200),
      (''/game/multiplayer'', 200),
      (''/game/online'', 200),
      (''/game/online-tournament'', 200),
      (''/game/local-tournament'', 200),
      (''/game/local'', 200),
      (''/friends'', 404),
      (''/profile'', 200),
      (''/login'', 200),
      (''/register'', 200),
      (''/assets/default-avatar.svg'', 200),
      (''/ws/localGame'', 200)]"

text \<open>
  \<open>AUTH_ROUTES\<close> is built once, when the module is loaded; \<open>k\<close> is the index drawn by the
  \<open>random.choice([200, 406])\<close> inside the list display.
\<close>

definition AUTH_ROUTES :: "nat \<Rightarrow> exn + (string \<times> string \<times> int) list" where
  "AUTH_ROUTES k =
     (case random_choice [200, 406] k of
        Inl e \<Rightarrow> Inl e
      | Inr login_status \<Rightarrow>
          Inr [(''POST'', ''/api/auth/refresh'', 401),
               (''POST'', ''/api/auth/login'', login_status),
               (''POST'', ''/api/auth/register'', 200)])"

subsection \<open>Request identifiers: \<open>req_id_gen\<close>\<close>

definition alphabet :: string where
  "alphabet = ''0123456789abcdefghijklmnopqrstuvwxyz''"

text \<open>
  The value yielded by \<open>req_id_gen\<close> when \<open>itertools.count(1)\<close> is at \<open>i\<close>. The generator's
  state is that \<open>i\<close>: it starts at 1 and \<open>next(reqid_iter)\<close> yields \<open>req_id i\<close> and moves
  to \<open>i + 1\<close>.
\<close>

definition req_id :: "nat \<Rightarrow> string" where
  "req_id i =
     (if i \<le> 10 then ''req-'' @ format_x (i - 1)
      else if i - 1 < length alphabet then ''req-'' @ [alphabet ! (i - 1)]
      else ''req-'' @ format_d i)"

subsection \<open>Log records\<close>

text \<open>
  A record is a Python dict of integers, floats, strings and nested dicts, in insertion
  order.
\<close>

datatype json = JInt int | JFloat real | JStr string | JObj "(string \<times> json) list"

fun field :: "string \<Rightarrow> json \<Rightarrow> json option" where
  "field k (JObj kvs) = map_of kvs k"
| "field k v = None"

fun keys :: "json \<Rightarrow> string list" where
  "keys (JObj kvs) = map fst kvs"
| "keys v = []"

text \<open>The module constants \<open>pid = os.getpid()\<close> and \<open>hostname = socket.gethostname()\<close>.\<close>

record process =
  pid :: int
  hostname :: string

text \<open>\<open>t\<close> is the one reading \<open>now_ms()\<close> taken by the generator.\<close>

definition mk_server_listening_entries :: "process \<Rightarrow> int \<Rightarrow> json list" where
  "mk_server_listening_entries P t =
     map (\<lambda>m. JObj [(''level'', JInt 30),
                     (''time'', JInt t),
                     (''pid'', JInt (pid P)),
                     (''hostname'', JStr (hostname P)),
                     (''msg'', JStr m)])
       [''Server listening at https://[::1]:3000'',
        ''Server listening at https://127.0.0.1:3000'',
        ''ft_transcendence running at https://[::1]:3000'']"

text \<open>
  \<open>i\<close> is the state of \<open>reqid_iter\<close> and \<open>now\<close> the reading of \<open>now_ms()\<close>; the result is the
  returned triple and the new state of \<open>reqid_iter\<close>.
\<close>

definition mk_incoming_request ::
  "process \<Rightarrow> nat \<Rightarrow> int \<Rightarrow> string \<Rightarrow> string \<Rightarrow> string \<Rightarrow> int \<Rightarrow>
     (json \<times> string \<times> int) \<times> nat" where
  "mk_incoming_request P i now method url host remote_port =
     (let rid = req_id i;
          t0 = now;
          entry = JObj [(''level'', JInt 30),
                        (''time'', JInt t0),
                        (''pid'', JInt (pid P)),
                        (''hostname'', JStr (hostname P)),
                        (''reqId'', JStr rid),
                        (''req'', JObj [(''method'', JStr method),
                                       (''url'', JStr url),
                                       (''host'', JStr host),
                                       (''remoteAddress'', JStr ''::1''),
                                       (''remotePort'', JInt remote_port)]),
                        (''msg'', JStr ''incoming request'')]
      in ((entry, rid, t0), Suc i))"

text \<open>
  \<open>u\<close> is the \<open>random()\<close> value consumed by the one \<open>random.uniform\<close> call made. The
  literal \<open>0.8\<close> is the binary64 number nearest to \<open>4/5\<close>; \<open>40.0\<close> and \<open>300.0\<close> are exact.
\<close>

definition mk_request_completed :: "process \<Rightarrow> string \<Rightarrow> int \<Rightarrow> int \<Rightarrow> real \<Rightarrow> json" where
  "mk_request_completed P rid status_code started_ms u =
     (let rt = (if status_code = 200 then uniform (round64 (4/5)) 40 u
                else uniform (round64 (4/5)) 300 u)
      in JObj [(''level'', JInt 30),
               (''time'', JInt (started_ms + py_int rt)),
               (''pid'', JInt (pid P)),
               (''hostname'', JStr (hostname P)),
               (''reqId'', JStr rid),
               (''res'', JObj [(''statusCode'', JInt status_code)]),
               (''responseTime'', JFloat rt),
               (''msg'', JStr ''request completed'')])"

subsection \<open>The emission loop: \<open>main\<close>\<close>

text \<open>
  The file handle is the sequence of records written through it by this process, one
  \<open>json.dumps\<close> line each, oldest first (the file is opened for appending).
\<close>

definition log_json :: "json \<Rightarrow> json list \<Rightarrow> json list" where
  "log_json line fh = fh @ [line]"

record state =
  reqid_iter :: nat
  fh :: "json list"

text \<open>
  What one iteration of \<open>while True\<close> takes from the outside: the \<open>random.random()\<close> of the
  selection, the index of the one \<open>random.choice\<close> executed, the \<open>random.randint(53000,
  53350)\<close>, the clock reading of \<open>mk_incoming_request\<close> and the \<open>random()\<close> behind the
  response time. The two \<open>time.sleep\<close> calls change nothing the program keeps.
\<close>

record draws =
  sel :: real
  pick :: nat
  port :: int
  now :: int
  u_rt :: real

text \<open>
  The \<open>if random.random() < 0.8: ... else: ...\<close> at the head of the loop body.
  \<open>random()\<close> returns multiples of \<open>2^-53\<close> and the float \<open>0.8\<close> is the least such multiple
  above \<open>4/5\<close>, so the test of the code and \<open>r < 4/5\<close> agree on every value drawn.
\<close>

definition pick_route ::
  "(string \<times> string \<times> int) list \<Rightarrow> real \<Rightarrow> nat \<Rightarrow> exn + (string \<times> string \<times> int)" where
  "pick_route auth r k =
     (if r < 4/5 then
        (case random_choice ROUTES k of
           Inl e \<Rightarrow> Inl e
         | Inr (url, status) \<Rightarrow> Inr (''GET'', url, status))
      else random_choice auth k)"

definition loop_body ::
  "process \<Rightarrow> (string \<times> string \<times> int) list \<Rightarrow> draws \<Rightarrow> state \<Rightarrow> exn + state" where
  "loop_body P auth d s =
     (case pick_route auth (sel d) (pick d) of
        Inl e \<Rightarrow> Inl e
      | Inr (method, url, status) \<Rightarrow>
          (let remote_port = port d;
               ((inc, rid, t0), it) =
                  mk_incoming_request P (reqid_iter s) (now d) method url
                    ''localhost:3000'' remote_port;
               fh1 = log_json inc (fh s);
               done = mk_request_completed P rid status t0 (u_rt d);
               fh2 = log_json done fh1
           in Inr \<lparr>reqid_iter = it, fh = fh2\<rparr>))"

text \<open>
  The loop never ends by itself. \<open>steady\<close> runs its first iterations, one for each element
  of the list of draws.
\<close>

fun steady ::
  "process \<Rightarrow> (string \<times> string \<times> int) list \<Rightarrow> draws list \<Rightarrow> state \<Rightarrow> exn + state" where
  "steady P auth [] s = Inr s"
| "steady P auth (d # ds) s =
     (case loop_body P auth d s of
        Inl e \<Rightarrow> Inl e
      | Inr s' \<Rightarrow> steady P auth ds s')"

text \<open>
  The body of \<open>with open(LOG_FILE, "a", buffering=1) as fh\<close>, up to the end of the
  iterations given. \<open>auth\<close> is the module constant \<open>AUTH_ROUTES\<close>, \<open>t\<close> the clock reading
  of the banner generator; \<open>reqid_iter\<close> is fresh, at the first value of
  \<open>itertools.count(1)\<close>.
\<close>

definition startup :: "process \<Rightarrow> int \<Rightarrow> state" where
  "startup P t =
     foldl (\<lambda>s e. s\<lparr>fh := log_json e (fh s)\<rparr>) \<lparr>reqid_iter = 1, fh = []\<rparr>
       (mk_server_listening_entries P t)"

definition main ::
  "process \<Rightarrow> (string \<times> string \<times> int) list \<Rightarrow> int \<Rightarrow> draws list \<Rightarrow> exn + state" where
  "main P auth t ds = steady P auth ds (startup P t)"

text \<open>
  The program from the loading of the module on: \<open>k\<close> is the draw that fixes
  \<open>AUTH_ROUTES\<close>.
\<close>

definition program :: "process \<Rightarrow> nat \<Rightarrow> int \<Rightarrow> draws list \<Rightarrow> exn + state" where
  "program P k t ds =
     (case AUTH_ROUTES k of
        Inl e \<Rightarrow> Inl e
      | Inr auth \<Rightarrow> main P auth t ds)"

text \<open>The contract of the random number generator for the draws of one iteration.\<close>

definition valid_draws :: "(string \<times> string \<times> int) list \<Rightarrow> draws \<Rightarrow> bool" where
  "valid_draws auth d =
     (0 \<le> sel d \<and> sel d < 1 \<and>
      pick d < (if sel d < 4/5 then length ROUTES else length auth) \<and>
      53000 \<le> port d \<and> port d \<le> 53350 \<and>
      0 \<le> u_rt d \<and> u_rt d < 1)"

subsection \<open>Notions used to state the properties\<close>

text \<open>\<open>entry[k1][k2]\<close> for a record with a nested dict.\<close>

definition field2 :: "string \<Rightarrow> string \<Rightarrow> json \<Rightarrow> json option" where
  "field2 k1 k2 v = (case field k1 v of Some w \<Rightarrow> field k2 w | None \<Rightarrow> None)"

text \<open>
  \<open>a\<close> and \<open>b\<close> are the incoming and the completed record that an iteration with the
  draws \<open>d\<close> builds, for some state \<open>i\<close> of the identifier generator.
\<close>

definition written ::
  "process \<Rightarrow> (string \<times> string \<times> int) list \<Rightarrow> draws \<Rightarrow> json \<Rightarrow> json \<Rightarrow> bool" where
  "written P auth d a b =
     (\<exists>i method url status.
        pick_route auth (sel d) (pick d) = Inr (method, url, status) \<and>
        a = fst (fst (mk_incoming_request P i (now d) method url ''localhost:3000'' (port d))) \<and>
        b = mk_request_completed P (req_id i) status (now d) (u_rt d))"

text \<open>Shorter strings first, strings of one length in the order of \<open>str_less\<close>.\<close>

definition shortlex :: "string \<Rightarrow> string \<Rightarrow> bool" where
  "shortlex a b = (length a < length b \<or> (length a = length b \<and> str_less a b))"

text \<open>The number that a string of decimal digits denotes.\<close>

definition dec_value :: "string \<Rightarrow> nat" where
  "dec_value s = foldl (\<lambda>acc c. 10 * acc + (of_char c - 48)) 0 s"

text \<open>
  The regular files of a listing, and among them those whose names contain \<open>json\<close> or
  \<open>log\<close> in any letter case.
\<close>

definition regular_files :: "dir_entry list \<Rightarrow> dir_entry list" where
  "regular_files paths = filter (\<lambda>p. is_file p = Inr True) paths"

definition candidates :: "dir_entry list \<Rightarrow> dir_entry list" where
  "candidates paths = filter (\<lambda>p. looks_jsonish (name p)) (regular_files paths)"

text \<open>
  A filesystem error while the listing is examined: \<open>is_file()\<close> raises for an entry, or
  \<open>stat()\<close> raises for one of the candidates.
\<close>

definition fs_error :: "dir_entry list \<Rightarrow> bool" where
  "fs_error paths =
     ((\<exists>p\<in>set paths. \<exists>x. is_file p = Inl x) \<or>
      (\<exists>p\<in>set (candidates paths). \<exists>x. st_mtime p = Inl x))"

text \<open>Concrete inputs.\<close>

definition P0 :: process where
  "P0 = \<lparr>pid = 4242, hostname = ''elk''\<rparr>"

definition d_get :: draws where
  "d_get = \<lparr>sel = 1/2, pick = 3, port = 53100, now = 1000, u_rt = 1/2\<rparr>"

definition d_auth :: draws where
  "d_auth = \<lparr>sel = 9/10, pick = 1, port = 53001, now = 2000, u_rt = 1/4\<rparr>"

definition d_home :: draws where
  "d_home = \<lparr>sel = 1/2, pick = 0, port = 53100, now = 1000, u_rt = 1/2\<rparr>"

definition d_near8 :: draws where
  "d_near8 = \<lparr>sel = 1/2, pick = 0, port = 53100, now = 1000,
              u_rt = 206797942073135/1125899906842624\<rparr>"

definition auth_406 :: "(string \<times> string \<times> int) list" where
  "auth_406 = [(''POST'', ''/api/auth/refresh'', 401),
               (''POST'', ''/api/auth/login'', 406),
               (''POST'', ''/api/auth/register'', 200)]"

definition a_txt :: dir_entry where
  "a_txt = \<lparr>name = ''a.txt'', is_file = Inr True, st_mtime = Inr 100\<rparr>"

definition b_jsonlog :: dir_entry where
  "b_jsonlog = \<lparr>name = ''b.jsonlog'', is_file = Inr True, st_mtime = Inr 300\<rparr>"

definition c_jsonlog :: dir_entry where
  "c_jsonlog = \<lparr>name = ''c.jsonlog'', is_file = Inr True, st_mtime = Inr 200\<rparr>"

definition archive_dir :: dir_entry where
  "archive_dir = \<lparr>name = ''archive'', is_file = Inr False, st_mtime = Inr 50\<rparr>"

definition x_log :: dir_entry where
  "x_log = \<lparr>name = ''x.log'', is_file = Inr True, st_mtime = Inr 10\<rparr>"

section \<open>Binary64 rounding\<close>

lemma rhe_lower: "y - 1/2 \<le> of_int (round_half_even y)"
  unfolding round_half_even_def Let_def by (auto; linarith)

lemma rhe_upper: "of_int (round_half_even y) \<le> y + 1/2"
  unfolding round_half_even_def Let_def by (auto; linarith)

lemma rhe_near:
  assumes "of_int j - 1/2 < y" "y < of_int j + 1/2"
  shows "round_half_even y = j"
proof -
  have "of_int (round_half_even y) < (of_int j :: real) + 1"
    using rhe_upper [of y] assms by linarith
  moreover have "(of_int j :: real) - 1 < of_int (round_half_even y)"
    using rhe_lower [of y] assms by linarith
  ultimately show ?thesis by linarith
qed

lemma rhe_of_int [simp]: "round_half_even (of_int j) = j"
  by (rule rhe_near) simp_all

lemma rhe_mono:
  assumes "y \<le> z"
  shows "round_half_even y \<le> round_half_even z"
proof (cases "\<lfloor>y\<rfloor> = \<lfloor>z\<rfloor>")
  case True
  with assms show ?thesis
    unfolding round_half_even_def Let_def by auto
next
  case False
  with assms have lt: "\<lfloor>y\<rfloor> < \<lfloor>z\<rfloor>" using floor_mono [OF assms] by linarith
  have "round_half_even y \<le> \<lfloor>y\<rfloor> + 1"
    unfolding round_half_even_def Let_def by auto
  moreover have "\<lfloor>z\<rfloor> \<le> round_half_even z"
    unfolding round_half_even_def Let_def by auto
  ultimately show ?thesis using lt by linarith
qed

lemma rhe_ge_int: "of_int n \<le> y \<Longrightarrow> n \<le> round_half_even y"
  using rhe_mono [of "of_int n" y] by simp

lemma rhe_le_int: "y \<le> of_int n \<Longrightarrow> round_half_even y \<le> n"
  using rhe_mono [of y "of_int n"] by simp

lemma ilog_bounds:
  assumes "0 < x" "1 < b"
  shows "real b powi ilog b x \<le> x" and "x < real b powi (ilog b x + 1)"
proof -
  have b0: "0 < real b" using assms by simp
  show "real b powi ilog b x \<le> x" "x < real b powi (ilog b x + 1)"
  proof (atomize (full), cases "1 \<le> x")
    case True
    let ?n = "nat \<lfloor>x\<rfloor>"
    from True have n: "0 < ?n" by simp
    from floorlog_bounds [OF n assms(2)]
    have lo: "b ^ (floorlog b ?n - 1) \<le> ?n" and hi: "?n < b ^ floorlog b ?n" by simp_all
    have fl: "0 < floorlog b ?n" using n assms(2) by (simp add: floorlog_def)
    have e: "ilog b x = int (floorlog b ?n - 1)" using True fl by (simp add: ilog_def)
    have e1: "ilog b x + 1 = int (floorlog b ?n)" using True fl by (simp add: ilog_def)
    have "real (b ^ (floorlog b ?n - 1)) \<le> real ?n" using lo by (rule of_nat_mono)
    also have "\<dots> \<le> x" using True by simp
    finally have 1: "real b powi ilog b x \<le> x" unfolding e by simp
    have "?n + 1 \<le> b ^ floorlog b ?n" using hi by simp
    then have "real (?n + 1) \<le> real (b ^ floorlog b ?n)" by (rule of_nat_mono)
    moreover have "x < real (?n + 1)" using True by simp linarith
    ultimately have 2: "x < real b powi (ilog b x + 1)" unfolding e1 by simp
    from 1 2 show "real b powi ilog b x \<le> x \<and> x < real b powi (ilog b x + 1)" by simp
  next
    case False
    with assms have x1: "x < 1" by simp
    let ?c = "\<lceil>1 / x\<rceil>"
    let ?n = "nat (?c - 1)"
    have inv: "1 < 1 / x" using assms x1 by simp
    then have c2: "2 \<le> ?c" by linarith
    then have n: "0 < ?n" by simp
    from floorlog_bounds [OF n assms(2)]
    have lo: "b ^ (floorlog b ?n - 1) \<le> ?n" and hi: "?n < b ^ floorlog b ?n" by simp_all
    have fl: "0 < floorlog b ?n" using n assms(2) by (simp add: floorlog_def)
    have e: "ilog b x = - int (floorlog b ?n)" using False by (simp add: ilog_def)
    have nn: "int ?n = ?c - 1" using c2 by linarith
    have "int ?n + 1 \<le> int (b ^ floorlog b ?n)" using hi by linarith
    then have "?c \<le> int (b ^ floorlog b ?n)" unfolding nn by linarith
    then have "real_of_int ?c \<le> real_of_int (int (b ^ floorlog b ?n))" by linarith
    also have "\<dots> = real b ^ floorlog b ?n" by simp
    finally have A: "real_of_int ?c \<le> real b ^ floorlog b ?n" .
    have "1 / x \<le> real_of_int ?c" by (rule le_of_int_ceiling)
    with A have "1 / x \<le> real b ^ floorlog b ?n" by linarith
    then have "1 / real b ^ floorlog b ?n \<le> x"
      using assms b0 by (simp add: field_simps)
    then have 1: "real b powi ilog b x \<le> x"
      unfolding e by (simp add: power_int_minus_divide)
    have "real (b ^ (floorlog b ?n - 1)) \<le> real ?n" using lo by (rule of_nat_mono)
    also have "real ?n = real_of_int ?c - 1" using nn by linarith
    also have "\<dots> < 1 / x" by linarith
    finally have "real b ^ (floorlog b ?n - 1) < 1 / x" by simp
    then have "x < 1 / real b ^ (floorlog b ?n - 1)"
      using assms b0 by (simp add: field_simps)
    moreover have "ilog b x + 1 = - int (floorlog b ?n - 1)" using e fl by simp
    ultimately have 2: "x < real b powi (ilog b x + 1)"
      by (simp add: power_int_minus_divide)
    from 1 2 show "real b powi ilog b x \<le> x \<and> x < real b powi (ilog b x + 1)" by simp
  qed
qed

lemma powi_strict_mono: "1 < (b::real) \<Longrightarrow> m < n \<Longrightarrow> b powi m < b powi n"
  by (rule power_int_strict_increasing)

lemma powi_mono: "1 < (b::real) \<Longrightarrow> m \<le> n \<Longrightarrow> b powi m \<le> b powi n"
  by (rule power_int_increasing) simp_all

lemma ilog_unique:
  assumes "1 < b" "real b powi e \<le> x" "x < real b powi (e + 1)"
  shows "ilog b x = e"
proof -
  have b1: "1 < real b" using assms(1) by simp
  have "0 < real b powi e" using b1 by simp
  with assms(2) have x: "0 < x" by linarith
  note B = ilog_bounds [OF x assms(1)]
  have "\<not> ilog b x < e"
  proof
    assume "ilog b x < e"
    then have "ilog b x + 1 \<le> e" by simp
    then have "real b powi (ilog b x + 1) \<le> real b powi e" using b1 by (intro powi_mono)
    with B(2) assms(2) show False by linarith
  qed
  moreover have "\<not> e < ilog b x"
  proof
    assume "e < ilog b x"
    then have "e + 1 \<le> ilog b x" by simp
    then have "real b powi (e + 1) \<le> real b powi ilog b x" using b1 by (intro powi_mono)
    with B(1) assms(3) show False by linarith
  qed
  ultimately show ?thesis by linarith
qed

lemma ilog_mono:
  assumes "1 < b" "0 < x" "x \<le> y"
  shows "ilog b x \<le> ilog b y"
proof (rule ccontr)
  assume "\<not> ilog b x \<le> ilog b y"
  then have "ilog b y + 1 \<le> ilog b x" by simp
  moreover have b1: "1 < real b" using assms(1) by simp
  ultimately have "real b powi (ilog b y + 1) \<le> real b powi ilog b x"
    by (intro powi_mono)
  moreover from assms have y: "0 < y" by simp
  note ilog_bounds(1) [OF assms(2,1)] ilog_bounds(2) [OF y assms(1)]
  ultimately show False using assms(3) by linarith
qed

lemma two_powi_pos [simp]: "0 < (2::real) powi n"
  by simp

lemma quantum_ge: "- 1074 \<le> quantum x" "ilog 2 \<bar>x\<bar> - 52 \<le> quantum x"
  by (simp_all add: quantum_def)

lemma quantum_mono:
  assumes "0 < x" "x \<le> y"
  shows "quantum x \<le> quantum y"
proof -
  have "ilog 2 x \<le> ilog 2 y" using assms by (intro ilog_mono) simp_all
  then show ?thesis using assms by (simp add: quantum_def)
qed

lemma round64_pos_eq:
  "x \<noteq> 0 \<Longrightarrow> round64 x = of_int (round_half_even (x / 2 powi quantum x)) * 2 powi quantum x"
  by (simp add: round64_def)

lemma round64_nonneg:
  assumes "0 \<le> x"
  shows "0 \<le> round64 x"
proof (cases "x = 0")
  case True
  then show ?thesis by (simp add: round64_def)
next
  case False
  have "0 \<le> x / 2 powi quantum x" using assms by simp
  then have "0 \<le> round_half_even (x / 2 powi quantum x)"
    using rhe_ge_int [of 0] by simp
  then show ?thesis using False by (simp add: round64_pos_eq)
qed

text \<open>An upper bound: the next power of two, or the least positive value.\<close>

lemma round64_upper:
  assumes "0 < x"
  shows "round64 x \<le> max (2 powi (ilog 2 x + 1)) (2 powi quantum x)"
proof -
  let ?e = "ilog 2 x" and ?q = "quantum x"
  have x0: "x \<noteq> 0" using assms by simp
  have hi: "x < 2 powi (?e + 1)" using ilog_bounds(2) [OF assms, of 2] by simp
  show ?thesis
  proof (cases "?q \<le> ?e + 1")
    case True
    define k where "k = nat (?e + 1 - ?q)"
    have "x / 2 powi ?q < 2 powi (?e + 1) / 2 powi ?q"
      using hi by (simp add: divide_strict_right_mono)
    also have "\<dots> = 2 powi (?e + 1 - ?q)" by (simp add: power_int_diff)
    also have "\<dots> = of_int (2 ^ k)" using True by (simp add: k_def power_int_def)
    finally have "round_half_even (x / 2 powi ?q) \<le> 2 ^ k"
      by (intro rhe_le_int) simp
    then have "real_of_int (round_half_even (x / 2 powi ?q)) \<le> real_of_int (2 ^ k)"
      by linarith
    then have "round64 x \<le> real_of_int (2 ^ k) * 2 powi ?q"
      unfolding round64_pos_eq [OF x0] by (simp add: mult_right_mono)
    also have "real_of_int (2 ^ k) = 2 powi (?e + 1 - ?q)"
      using True by (simp add: k_def power_int_def)
    also have "\<dots> * 2 powi ?q = 2 powi (?e + 1)"
      by (simp flip: power_int_add)
    finally show ?thesis by simp
  next
    case False
    then have "?e + 1 - ?q < 0" by simp
    have "x / 2 powi ?q < 2 powi (?e + 1) / 2 powi ?q"
      using hi by (simp add: divide_strict_right_mono)
    also have "\<dots> = 2 powi (?e + 1 - ?q)" by (simp add: power_int_diff)
    also have "\<dots> \<le> 2 powi 0" using False by (intro powi_mono) simp_all
    finally have "round_half_even (x / 2 powi ?q) \<le> 1"
      by (intro rhe_le_int) simp
    then have "real_of_int (round_half_even (x / 2 powi ?q)) \<le> 1" by linarith
    then have "round64 x \<le> 1 * 2 powi ?q"
      unfolding round64_pos_eq [OF x0] by (intro mult_right_mono) simp_all
    then show ?thesis by simp
  qed
qed

text \<open>A lower bound for values in the normal range.\<close>

lemma round64_lower:
  assumes "0 < x" "quantum x = ilog 2 x - 52"
  shows "2 powi ilog 2 x \<le> round64 x"
proof -
  let ?e = "ilog 2 x" and ?q = "quantum x"
  have x0: "x \<noteq> 0" using assms by simp
  have lo: "2 powi ?e \<le> x" using ilog_bounds(1) [OF assms(1), of 2] by simp
  have "2 powi ?e / 2 powi ?q \<le> x / 2 powi ?q"
    using lo by (simp add: divide_right_mono)
  moreover have "2 powi ?e / 2 powi ?q = (2::real) powi 52"
    unfolding assms(2) by (simp add: power_int_diff)
  moreover have "(2::real) powi 52 = of_int (2 ^ 52)" by simp
  ultimately have "of_int (2 ^ 52) \<le> x / 2 powi ?q" by simp
  then have "2 ^ 52 \<le> round_half_even (x / 2 powi ?q)" by (rule rhe_ge_int)
  then have "real_of_int (2 ^ 52) \<le> real_of_int (round_half_even (x / 2 powi ?q))"
    by linarith
  then have "real_of_int (2 ^ 52) * 2 powi ?q \<le> round64 x"
    unfolding round64_pos_eq [OF x0] by (intro mult_right_mono) simp_all
  moreover have "real_of_int (2 ^ 52) * 2 powi ?q = 2 powi ?e"
    unfolding assms(2) using power_int_add [of "2::real" 52 "?e - 52"] by simp
  ultimately show ?thesis by simp
qed

lemma round64_mono:
  assumes "0 \<le> x" "x \<le> y"
  shows "round64 x \<le> round64 y"
proof (cases "x = 0")
  case True
  with assms round64_nonneg [of y] show ?thesis by (simp add: round64_def)
next
  case False
  with assms have x: "0 < x" and y: "0 < y" by simp_all
  then have x0: "x \<noteq> 0" and y0: "y \<noteq> 0" by simp_all
  have q: "quantum x \<le> quantum y" using x assms(2) by (rule quantum_mono)
  have e: "ilog 2 x \<le> ilog 2 y" using x assms(2) by (intro ilog_mono) simp_all
  show ?thesis
  proof (cases "quantum x = quantum y")
    case True
    have "x / 2 powi quantum y \<le> y / 2 powi quantum y"
      using assms(2) by (simp add: divide_right_mono)
    then have "round_half_even (x / 2 powi quantum y) \<le> round_half_even (y / 2 powi quantum y)"
      by (rule rhe_mono)
    then have "real_of_int (round_half_even (x / 2 powi quantum y))
                 \<le> real_of_int (round_half_even (y / 2 powi quantum y))" by linarith
    then show ?thesis
      unfolding round64_pos_eq [OF x0] round64_pos_eq [OF y0] True
      by (intro mult_right_mono) simp_all
  next
    case False
    with q have lt: "quantum x < quantum y" by simp
    have ax: "\<bar>x\<bar> = x" and ay: "\<bar>y\<bar> = y" using x y by simp_all
    have "quantum y = max (ilog 2 y - 52) (- 1074)" by (simp add: quantum_def ay)
    with lt quantum_ge(1) [of x] have qy: "quantum y = ilog 2 y - 52" by linarith
    have "ilog 2 x - 52 \<le> quantum x" using quantum_ge(2) [of x] by (simp add: ax)
    with lt qy have e1: "ilog 2 x + 1 \<le> ilog 2 y" by linarith
    have "round64 x \<le> max (2 powi (ilog 2 x + 1)) (2 powi quantum x)"
      by (rule round64_upper [OF x])
    also have "\<dots> \<le> 2 powi ilog 2 y"
    proof (rule max.boundedI)
      show "(2::real) powi (ilog 2 x + 1) \<le> 2 powi ilog 2 y"
        using e1 by (intro powi_mono) simp_all
      have "quantum x \<le> ilog 2 y" using lt qy by linarith
      then show "(2::real) powi quantum x \<le> 2 powi ilog 2 y"
        by (intro powi_mono) simp_all
    qed
    also have "\<dots> \<le> round64 y" by (rule round64_lower [OF y qy])
    finally show ?thesis .
  qed
qed

text \<open>Evaluation: the multiple of the spacing within half a step of \<open>x\<close>.\<close>

lemma quantum_eqI:
  assumes "2 powi e \<le> \<bar>x\<bar>" "\<bar>x\<bar> < 2 powi (e + 1)"
  shows "quantum x = max (e - 52) (- 1074)"
proof -
  have "ilog 2 \<bar>x\<bar> = e" using assms by (intro ilog_unique) simp_all
  then show ?thesis by (simp add: quantum_def)
qed

lemma round64_eqI:
  assumes "2 powi e \<le> \<bar>x\<bar>" "\<bar>x\<bar> < 2 powi (e + 1)" "- 1022 \<le> e"
    and "of_int j - 1/2 < x / 2 powi (e - 52)" "x / 2 powi (e - 52) < of_int j + 1/2"
  shows "round64 x = of_int j * 2 powi (e - 52)"
proof -
  have q: "quantum x = e - 52" using quantum_eqI [OF assms(1,2)] assms(3) by simp
  have "0 < \<bar>x\<bar>" using assms(1) two_powi_pos [of e] by linarith
  then have x0: "x \<noteq> 0" by simp
  have "round_half_even (x / 2 powi (e - 52)) = j" using assms(4,5) by (rule rhe_near)
  then show ?thesis unfolding round64_pos_eq [OF x0] q by simp
qed

section \<open>Request identifiers\<close>

lemma alphabet_codes:
  "map of_char alphabet = map (\<lambda>k. if k < 10 then 48 + k else 87 + k) [0..<36::nat]"
  by code_simp

lemma length_alphabet: "length alphabet = 36"
  by (simp add: alphabet_def)

lemma alphabet_code:
  assumes "k < 36"
  shows "(of_char (alphabet ! k) :: nat) = (if k < 10 then 48 + k else 87 + k)"
proof -
  have "(of_char (alphabet ! k) :: nat) = map of_char alphabet ! k"
    using assms by (simp add: length_alphabet)
  also have "\<dots> = (if k < 10 then 48 + k else 87 + k)"
    unfolding alphabet_codes using assms by (simp del: upt_rec_numeral)
  finally show ?thesis .
qed

lemma digit_chars_alphabet: "map digit_char [0..<10] = take 10 alphabet"
  by code_simp

lemma digit_alphabet:
  assumes "k < 10"
  shows "digit_char k = alphabet ! k"
proof -
  have "digit_char k = map digit_char [0..<10] ! k"
    using assms by (simp del: upt_rec_numeral)
  also have "\<dots> = alphabet ! k"
    unfolding digit_chars_alphabet using assms by simp
  finally show ?thesis .
qed

lemma decimal_digits_alphabet: "''0123456789'' = take 10 alphabet"
  by code_simp

lemma decimal_digit_alphabet:
  assumes "k < 10"
  shows "''0123456789'' ! k = alphabet ! k"
  unfolding decimal_digits_alphabet using assms by simp

lemma digit_code: "k < 10 \<Longrightarrow> (of_char (digit_char k) :: nat) = 48 + k"
  by (simp add: digit_alphabet alphabet_code)

lemma format_x_small: "n < 16 \<Longrightarrow> format_x n = [digit_char n]"
  by (subst format_x.simps) simp

lemma format_d_small: "n < 10 \<Longrightarrow> format_d n = [digit_char n]"
  by (subst format_d.simps) simp

lemma format_d_big:
  "\<not> n < 10 \<Longrightarrow> format_d n = format_d (n div 10) @ [digit_char (n mod 10)]"
  by (subst format_d.simps) simp

lemma req_id_low: "1 \<le> n \<Longrightarrow> n \<le> 36 \<Longrightarrow> req_id n = ''req-'' @ [alphabet ! (n - 1)]"
  by (auto simp: req_id_def format_x_small digit_alphabet length_alphabet)

lemma req_id_high: "37 \<le> n \<Longrightarrow> req_id n = ''req-'' @ format_d n"
  by (auto simp: req_id_def length_alphabet)

lemma format_d_nonempty: "format_d n \<noteq> []"
proof (cases "n < 10")
  case True
  then show ?thesis by (simp add: format_d_small)
next
  case False
  from format_d_big [OF False] show ?thesis by simp
qed

lemma length_format_d_ge2:
  assumes "10 \<le> n"
  shows "2 \<le> length (format_d n)"
proof -
  from assms have "\<not> n < 10" by simp
  from format_d_big [OF this] format_d_nonempty [of "n div 10"] show ?thesis
    by (cases "format_d (n div 10)") simp_all
qed

lemma dec_value_snoc: "dec_value (s @ [c]) = 10 * dec_value s + (of_char c - 48)"
  by (simp add: dec_value_def)

lemma dec_value_format_d: "dec_value (format_d n) = n"
proof (induction n rule: format_d.induct)
  case (1 n)
  show ?case
  proof (cases "n < 10")
    case True
    then show ?thesis
      by (simp add: format_d_small dec_value_def digit_code)
  next
    case False
    have "n mod 10 < 10" by simp
    then have d: "(of_char (digit_char (n mod 10)) :: nat) = 48 + n mod 10"
      by (rule digit_code)
    from False 1 have "dec_value (format_d (n div 10)) = n div 10" by simp
    with d show ?thesis
      unfolding format_d_big [OF False] by (simp add: dec_value_snoc)
  qed
qed

lemma str_less_irrefl: "\<not> str_less a a"
  by (induction a) auto

lemma str_less_append: "length a = length b \<Longrightarrow> str_less a b \<Longrightarrow> str_less (a @ c) (b @ d)"
  by (induction a b rule: str_less.induct) auto

lemma str_less_same_prefix: "str_less (p @ a) (p @ b) = str_less a b"
  by (induction p) auto

lemma format_d_mono: "n < m \<Longrightarrow> shortlex (format_d n) (format_d m)"
proof (induction m arbitrary: n rule: format_d.induct)
  case (1 m)
  show ?case
  proof (cases "m < 10")
    case True
    with "1.prems" have "n < 10" by simp
    with True "1.prems" show ?thesis
      by (simp add: shortlex_def format_d_small digit_code)
  next
    case m: False
    show ?thesis
    proof (cases "n < 10")
      case True
      have "length (format_d n) = 1" using True by (simp add: format_d_small)
      moreover have "2 \<le> length (format_d m)" using m by (intro length_format_d_ge2) simp
      ultimately show ?thesis by (simp add: shortlex_def)
    next
      case n: False
      have fn: "format_d n = format_d (n div 10) @ [digit_char (n mod 10)]"
        using n by (rule format_d_big)
      have fm: "format_d m = format_d (m div 10) @ [digit_char (m mod 10)]"
        using m by (rule format_d_big)
      have le: "n div 10 \<le> m div 10" using "1.prems" by (simp add: div_le_mono)
      show ?thesis
      proof (cases "n div 10 < m div 10")
        case True
        with "1.IH" m have "shortlex (format_d (n div 10)) (format_d (m div 10))" by simp
        then show ?thesis
          unfolding fn fm shortlex_def by (auto simp: str_less_append)
      next
        case False
        with le have eq: "n div 10 = m div 10" by simp
        have "n = 10 * (n div 10) + n mod 10" "m = 10 * (m div 10) + m mod 10"
          by simp_all
        with "1.prems" eq have "n mod 10 < m mod 10"
          by arith
        then have "str_less [digit_char (n mod 10)] [digit_char (m mod 10)]"
          by (simp add: digit_code)
        then show ?thesis
          unfolding fn fm shortlex_def eq by (simp add: str_less_same_prefix)
      qed
    qed
  qed
qed

lemma req_id_mono_low:
  assumes "1 \<le> n" "n < m" "m \<le> 36"
  shows "str_less (req_id n) (req_id m)"
proof -
  have "(of_char (alphabet ! (n - 1)) :: nat) < of_char (alphabet ! (m - 1))"
    using assms by (auto simp: alphabet_code)
  then show ?thesis using assms by (simp add: req_id_low)
qed

lemma req_id_shortlex:
  assumes "1 \<le> n" "n < m"
  shows "shortlex (req_id n) (req_id m)"
proof (cases "m \<le> 36")
  case True
  with assms have "str_less (req_id n) (req_id m)" by (intro req_id_mono_low) auto
  moreover have "length (req_id n) = length (req_id m)"
    using assms True by (simp add: req_id_low)
  ultimately show ?thesis by (simp add: shortlex_def)
next
  case m: False
  show ?thesis
  proof (cases "n \<le> 36")
    case True
    have "2 \<le> length (format_d m)" using m by (intro length_format_d_ge2) simp
    then show ?thesis using assms True m
      by (simp add: shortlex_def req_id_low req_id_high)
  next
    case False
    have "shortlex (format_d n) (format_d m)" using assms by (intro format_d_mono)
    then show ?thesis using False m
      by (auto simp add: shortlex_def req_id_high)
  qed
qed

lemma shortlex_irrefl: "\<not> shortlex a a"
  by (simp add: shortlex_def str_less_irrefl)

lemma req_id_distinct: "1 \<le> n \<Longrightarrow> 1 \<le> m \<Longrightarrow> n \<noteq> m \<Longrightarrow> req_id n \<noteq> req_id m"
  using req_id_shortlex [of n m] req_id_shortlex [of m n] shortlex_irrefl [of "req_id n"]
  by (cases "n < m") auto

lemma format_d_37: "format_d 37 = ''37''"
  by (subst format_d.simps, simp, subst format_d.simps, simp add: digit_char_def)

text \<open>
  C5, as stated, asks for identifiers that increase strictly in issuance order. In the
  order of Python strings they do not: the 36th identifier is \<open>req-z\<close>, the 37th is
  \<open>req-37\<close>, and \<open>req-37\<close> is the smaller of the two.
\<close>

theorem req_id_not_increasing:
  "req_id 36 = ''req-z'' \<and> req_id 37 = ''req-37'' \<and>
   \<not> str_less (req_id 36) (req_id 37) \<and> str_less (req_id 37) (req_id 36)"
  by (simp add: req_id_high format_d_37 req_id_low alphabet_def)

text \<open>
  C5, amended. The \<open>n\<close>-th identifier issued (\<open>n\<close> from 1) is \<open>req-\<close> followed by one
  decimal digit, \<open>0\<close> to \<open>9\<close>, for \<open>n\<close> in 1..10; by the character at position \<open>n - 1\<close> of
  the alphabet \<open>0123456789abcdefghijklmnopqrstuvwxyz\<close>, \<open>a\<close> to \<open>z\<close>, for \<open>n\<close> in 11..36; by
  the decimal number \<open>n\<close> for \<open>n\<close> from 37 on. The identifiers issued are pairwise distinct.
  They increase strictly in the order of strings up to the 36th, and throughout in the
  order that puts shorter strings first.
\<close>

theorem req_id_sequence:
  "(1 \<le> n \<and> n \<le> 10 \<longrightarrow> req_id n = ''req-'' @ [''0123456789'' ! (n - 1)]) \<and>
   (11 \<le> n \<and> n \<le> 36 \<longrightarrow> req_id n = ''req-'' @ [alphabet ! (n - 1)]) \<and>
   (37 \<le> n \<longrightarrow> req_id n = ''req-'' @ format_d n \<and> dec_value (format_d n) = n) \<and>
   (1 \<le> n \<and> 1 \<le> m \<and> n \<noteq> m \<longrightarrow> req_id n \<noteq> req_id m) \<and>
   (1 \<le> n \<and> n < m \<and> m \<le> 36 \<longrightarrow> str_less (req_id n) (req_id m)) \<and>
   (1 \<le> n \<and> n < m \<longrightarrow> shortlex (req_id n) (req_id m))"
proof (intro conjI impI)
  assume "1 \<le> n \<and> n \<le> 10"
  then show "req_id n = ''req-'' @ [''0123456789'' ! (n - 1)]"
    using decimal_digit_alphabet [of "n - 1"] by (auto simp: req_id_low)
next
  assume "11 \<le> n \<and> n \<le> 36"
  then show "req_id n = ''req-'' @ [alphabet ! (n - 1)]"
    by (simp add: req_id_low)
next
  assume "37 \<le> n"
  then show "req_id n = ''req-'' @ format_d n"
    by (rule req_id_high)
next
  show "dec_value (format_d n) = n"
    by (rule dec_value_format_d)
next
  assume "1 \<le> n \<and> 1 \<le> m \<and> n \<noteq> m"
  then show "req_id n \<noteq> req_id m"
    by (simp add: req_id_distinct)
next
  assume "1 \<le> n \<and> n < m \<and> m \<le> 36"
  then show "str_less (req_id n) (req_id m)"
    by (simp add: req_id_mono_low)
next
  assume "1 \<le> n \<and> n < m"
  then show "shortlex (req_id n) (req_id m)"
    by (simp add: req_id_shortlex)
qed

text \<open>The first, tenth, eleventh, 36th and 37th identifiers.\<close>

theorem req_id_sequence_witness:
  "req_id 1 = ''req-0'' \<and> req_id 10 = ''req-9'' \<and> req_id 11 = ''req-a'' \<and>
   req_id 36 = ''req-z'' \<and> req_id 37 = ''req-37'' \<and> dec_value ''37'' = 37 \<and>
   req_id 36 \<noteq> req_id 37 \<and> str_less (req_id 10) (req_id 11) \<and>
   shortlex (req_id 36) (req_id 37)"
proof -
  have "req_id 1 = ''req-0''" "req_id 10 = ''req-9''"
    using req_id_sequence [of 1 1] req_id_sequence [of 10 10] by simp_all
  moreover have "req_id 11 = ''req-a''" "req_id 36 = ''req-z''"
    using req_id_sequence [of 11 11] req_id_sequence [of 36 36] by (simp_all add: alphabet_def)
  moreover have "req_id 37 = ''req-37''" "dec_value ''37'' = 37"
    using req_id_sequence [of 37 37] by (simp_all add: format_d_37)
  moreover have "req_id 36 \<noteq> req_id 37"
  proof -
    from req_id_sequence [of 36 37]
    have "1 \<le> (36::nat) \<and> 1 \<le> (37::nat) \<and> (36::nat) \<noteq> 37 \<longrightarrow> req_id 36 \<noteq> req_id 37"
      by blast
    then show ?thesis by simp
  qed
  moreover have "shortlex (req_id 36) (req_id 37)"
  proof -
    from req_id_sequence [of 36 37]
    have "1 \<le> (36::nat) \<and> (36::nat) < 37 \<longrightarrow> shortlex (req_id 36) (req_id 37)"
      by blast
    then show ?thesis by simp
  qed
  moreover have "str_less (req_id 10) (req_id 11)"
  proof -
    from req_id_sequence [of 10 11]
    have "1 \<le> (10::nat) \<and> (10::nat) < 11 \<and> (11::nat) \<le> 36 \<longrightarrow>
          str_less (req_id 10) (req_id 11)"
      by blast
    then show ?thesis by simp
  qed
  ultimately show ?thesis by simp
qed

section \<open>Output file resolution\<close>

lemma jsonish_of_Inr:
  "jsonish_of paths = Inr js \<Longrightarrow> js = candidates paths \<and> (\<forall>p\<in>set paths. \<exists>f. is_file p = Inr f)"
proof (induction paths arbitrary: js)
  case Nil
  then show ?case by (simp add: candidates_def regular_files_def)
next
  case (Cons p ps)
  then show ?case
    by (auto simp: candidates_def regular_files_def split: sum.splits if_splits)
qed

lemma jsonish_of_Inl:
  "jsonish_of paths = Inl x \<Longrightarrow> \<exists>p\<in>set paths. \<exists>y. is_file p = Inl y"
  by (induction paths) (auto split: sum.splits)

lemma jsonish_of_total:
  "\<forall>p\<in>set paths. \<exists>f. is_file p = Inr f \<Longrightarrow> jsonish_of paths = Inr (candidates paths)"
  by (induction paths) (auto simp: candidates_def regular_files_def)

lemma mtime_keys_Inr:
  "mtime_keys js = Inr kps \<Longrightarrow> map snd kps = js \<and> (\<forall>(t, p)\<in>set kps. st_mtime p = Inr t)"
  by (induction js arbitrary: kps) (auto split: sum.splits)

lemma mtime_keys_Inr_all:
  "mtime_keys js = Inr kps \<Longrightarrow> \<forall>p\<in>set js. \<exists>t. st_mtime p = Inr t"
  by (induction js arbitrary: kps) (auto split: sum.splits)

lemma mtime_keys_Inl:
  "mtime_keys js = Inl x \<Longrightarrow> \<exists>p\<in>set js. \<exists>y. st_mtime p = Inl y"
  by (induction js) (auto split: sum.splits)

lemma mtime_keys_total:
  "\<forall>p\<in>set js. \<exists>t. st_mtime p = Inr t \<Longrightarrow> \<exists>kps. mtime_keys js = Inr kps"
  by (induction js) auto

lemma sorted_le_last: "sorted xs \<Longrightarrow> x \<in> set xs \<Longrightarrow> x \<le> last xs"
  by (induction xs) auto

lemma sort_reverse_head:
  assumes "kps \<noteq> []"
  shows "sort_reverse kps ! 0 \<in> set kps"
    and "\<forall>(t, p)\<in>set kps. t \<le> fst (sort_reverse kps ! 0)"
proof -
  let ?s = "sort_key fst (rev kps)"
  from assms have ne: "?s \<noteq> []" by (metis length_sort length_rev length_0_conv)
  then have hd: "sort_reverse kps ! 0 = last ?s"
    by (simp add: sort_reverse_def hd_rev flip: hd_conv_nth)
  have "last ?s \<in> set ?s" using ne by (rule last_in_set)
  then show "sort_reverse kps ! 0 \<in> set kps" unfolding hd by simp
  have srt: "sorted (map fst ?s)" by (rule sorted_sort_key)
  show "\<forall>(t, p)\<in>set kps. t \<le> fst (sort_reverse kps ! 0)"
  proof safe
    fix t p assume "(t, p) \<in> set kps"
    then have "t \<in> set (map fst ?s)" by force
    with srt have "t \<le> last (map fst ?s)" by (rule sorted_le_last)
    then show "t \<le> fst (sort_reverse kps ! 0)" unfolding hd using ne by (simp add: last_map)
  qed
qed


lemma try_block_single:
  assumes "is_file p = Inr True"
  shows "try_block (Inr [p]) = Inr (Some (path_str p))"
  using assms by (simp add: try_block_def single_file_def)

lemma single_file_False:
  assumes "\<not> (\<exists>p. paths = [p] \<and> is_file p = Inr True)" "\<forall>p\<in>set paths. \<exists>f. is_file p = Inr f"
  shows "single_file paths = Inr False"
proof (cases paths)
  case Nil
  then show ?thesis by (simp add: single_file_def)
next
  case (Cons p ps)
  show ?thesis
  proof (cases ps)
    case Nil
    with Cons assms show ?thesis by (auto simp: single_file_def)
  next
    case (Cons q qs)
    with \<open>paths = p # ps\<close> show ?thesis by (simp add: single_file_def)
  qed
qed

lemma try_block_most_recent:
  assumes "\<not> (\<exists>p. paths = [p] \<and> is_file p = Inr True)" "\<not> fs_error paths"
    and "candidates paths \<noteq> []"
  shows "\<exists>p\<in>set (candidates paths). \<exists>t.
           st_mtime p = Inr t \<and> try_block (Inr paths) = Inr (Some (path_str p)) \<and>
           (\<forall>q\<in>set (candidates paths). \<forall>t'. st_mtime q = Inr t' \<longrightarrow> t' \<le> t)"
proof -
  from assms(2) have ok: "\<forall>p\<in>set paths. \<exists>f. is_file p = Inr f"
    unfolding fs_error_def by (metis sum.exhaust)
  from assms(2) have ok2: "\<forall>p\<in>set (candidates paths). \<exists>t. st_mtime p = Inr t"
    unfolding fs_error_def by (metis sum.exhaust)
  have sf: "single_file paths = Inr False" by (rule single_file_False [OF assms(1) ok])
  have js: "jsonish_of paths = Inr (candidates paths)" by (rule jsonish_of_total [OF ok])
  from mtime_keys_total [OF ok2] obtain kps where kps: "mtime_keys (candidates paths) = Inr kps"
    by blast
  from mtime_keys_Inr [OF kps] have m: "map snd kps = candidates paths"
    and k: "\<forall>(t, p)\<in>set kps. st_mtime p = Inr t" by simp_all
  from m assms(3) have ne: "kps \<noteq> []" by auto
  obtain t p where tp: "sort_reverse kps ! 0 = (t, p)" by (cases "sort_reverse kps ! 0")
  from sort_reverse_head [OF ne] tp have mem: "(t, p) \<in> set kps"
    and mx: "\<forall>(t', q)\<in>set kps. t' \<le> t" by auto
  from mem have "p \<in> set (map snd kps)" by force
  with m have p: "p \<in> set (candidates paths)" by simp
  from mem k have t: "st_mtime p = Inr t" by auto
  have res: "try_block (Inr paths) = Inr (Some (path_str p))"
    using assms(3) by (simp add: try_block_def sf js kps tp)
  have "t' \<le> t" if "q \<in> set (candidates paths)" "st_mtime q = Inr t'" for q t'
  proof -
    from that(1) m have "q \<in> set (map snd kps)" by simp
    then obtain t'' where tq: "(t'', q) \<in> set kps" by auto
    with k have "st_mtime q = Inr t''" by blast
    with that(2) have "t'' = t'" by simp
    with tq mx show ?thesis by blast
  qed
  with p t res show ?thesis by blast
qed

lemma try_block_fallback:
  assumes "listing = Inl x \<or>
           (listing = Inr paths \<and> \<not> (\<exists>p. paths = [p] \<and> is_file p = Inr True) \<and>
            (fs_error paths \<or> candidates paths = []))"
  shows "try_block listing = Inr None \<or> (\<exists>y. try_block listing = Inl y)"
proof (cases listing)
  case (Inl y)
  then show ?thesis by (simp add: try_block_def)
next
  case (Inr ps)
  with assms have ps: "ps = paths" and ns: "\<not> (\<exists>p. paths = [p] \<and> is_file p = Inr True)"
    and c: "fs_error paths \<or> candidates paths = []" by auto
  have nt: "single_file paths \<noteq> Inr True"
    using ns by (cases paths) (auto simp: single_file_def split: if_splits)
  show ?thesis
  proof (cases "single_file paths")
    case (Inl y)
    then show ?thesis using Inr ps by (simp add: try_block_def)
  next
    case sf: (Inr b)
    with nt have sf: "single_file paths = Inr False" by simp
    show ?thesis
    proof (cases "jsonish_of paths")
      case (Inl y)
      then show ?thesis using Inr ps sf by (simp add: try_block_def)
    next
      case js: (Inr js)
      from jsonish_of_Inr [OF js] have jc: "js = candidates paths"
        and ok: "\<forall>p\<in>set paths. \<exists>f. is_file p = Inr f" by simp_all
      show ?thesis
      proof (cases "candidates paths = []")
        case True
        then show ?thesis using Inr ps sf js jc by (simp add: try_block_def)
      next
        case False
        with c have "fs_error paths" by simp
        with ok obtain p y where "p \<in> set (candidates paths)" "st_mtime p = Inl y"
          unfolding fs_error_def by force
        then have "\<not> (\<exists>kps. mtime_keys (candidates paths) = Inr kps)"
          using mtime_keys_Inr_all by fastforce
        then obtain z where "mtime_keys (candidates paths) = Inl z"
          by (cases "mtime_keys (candidates paths)") auto
        then show ?thesis using Inr ps sf js jc False by (simp add: try_block_def)
      qed
    qed
  qed
qed

lemma candidates_subset: "p \<in> set (candidates paths) \<Longrightarrow> p \<in> set paths"
  by (simp add: candidates_def regular_files_def)

lemma detect_no_override:
  "env = None \<or> env = Some [] \<Longrightarrow>
   detect_log_file env listing =
     (case try_block listing of Inl e \<Rightarrow> fallback | Inr (Some s) \<Rightarrow> s | Inr None \<Rightarrow> fallback)"
  by (auto simp: detect_log_file_def)

text \<open>
  C2, amended. \<open>detect_log_file\<close> returns a path for every input and raises nothing.
  A set, non-empty \<open>LOG_FILE\<close> is returned as it is. Otherwise: if the listing of the scan
  directory has exactly one entry and that entry is a regular file, its path is returned;
  failing that, if no filesystem error occurs and some regular file has a name containing
  \<open>json\<close> or \<open>log\<close> in any letter case, the path of such a file with the latest
  modification time is returned; in every other case (the listing fails, \<open>is_file\<close> or
  \<open>stat\<close> raises, or no name matches) the fallback path is returned.
\<close>

theorem detect_log_file_resolves:
  "(env = Some e \<and> e \<noteq> [] \<longrightarrow> detect_log_file env listing = e) \<and>
   ((env = None \<or> env = Some []) \<and> listing = Inr [p] \<and> is_file p = Inr True \<longrightarrow>
      detect_log_file env listing = path_str p) \<and>
   ((env = None \<or> env = Some []) \<and> listing = Inr paths \<and>
    \<not> (\<exists>p. paths = [p] \<and> is_file p = Inr True) \<and> \<not> fs_error paths \<and> candidates paths \<noteq> [] \<longrightarrow>
      (\<exists>p\<in>set (candidates paths). \<exists>t.
         st_mtime p = Inr t \<and> detect_log_file env listing = path_str p \<and>
         (\<forall>q\<in>set (candidates paths). \<forall>t'. st_mtime q = Inr t' \<longrightarrow> t' \<le> t))) \<and>
   ((env = None \<or> env = Some []) \<and>
    (listing = Inl x \<or>
     (listing = Inr paths \<and> \<not> (\<exists>p. paths = [p] \<and> is_file p = Inr True) \<and>
      (fs_error paths \<or> candidates paths = []))) \<longrightarrow>
      detect_log_file env listing = fallback)"
proof (intro conjI impI)
  assume "env = Some e \<and> e \<noteq> []"
  then show "detect_log_file env listing = e" by (simp add: detect_log_file_def)
next
  assume a: "(env = None \<or> env = Some []) \<and> listing = Inr [p] \<and> is_file p = Inr True"
  then have "try_block listing = Inr (Some (path_str p))" by (simp add: try_block_single)
  with a show "detect_log_file env listing = path_str p" by (simp add: detect_no_override)
next
  assume a: "(env = None \<or> env = Some []) \<and> listing = Inr paths \<and>
    \<not> (\<exists>p. paths = [p] \<and> is_file p = Inr True) \<and> \<not> fs_error paths \<and> candidates paths \<noteq> []"
  then have "\<not> (\<exists>p. paths = [p] \<and> is_file p = Inr True)" "\<not> fs_error paths"
    "candidates paths \<noteq> []" by simp_all
  from try_block_most_recent [OF this] obtain p t
    where "p \<in> set (candidates paths)" "st_mtime p = Inr t"
      "try_block (Inr paths) = Inr (Some (path_str p))"
      "\<forall>q\<in>set (candidates paths). \<forall>t'. st_mtime q = Inr t' \<longrightarrow> t' \<le> t" by blast
  moreover from this(3) a have "detect_log_file env listing = path_str p"
    by (simp add: detect_no_override)
  ultimately show "\<exists>p\<in>set (candidates paths). \<exists>t.
         st_mtime p = Inr t \<and> detect_log_file env listing = path_str p \<and>
         (\<forall>q\<in>set (candidates paths). \<forall>t'. st_mtime q = Inr t' \<longrightarrow> t' \<le> t)" by blast
next
  assume a: "(env = None \<or> env = Some []) \<and>
    (listing = Inl x \<or>
     (listing = Inr paths \<and> \<not> (\<exists>p. paths = [p] \<and> is_file p = Inr True) \<and>
      (fs_error paths \<or> candidates paths = [])))"
  then have "listing = Inl x \<or>
     (listing = Inr paths \<and> \<not> (\<exists>p. paths = [p] \<and> is_file p = Inr True) \<and>
      (fs_error paths \<or> candidates paths = []))" by simp
  then have "try_block listing = Inr None \<or> (\<exists>y. try_block listing = Inl y)"
    by (rule try_block_fallback)
  with a show "detect_log_file env listing = fallback" by (auto simp: detect_no_override)
qed

lemma scenario_candidates: "candidates [a_txt, b_jsonlog, c_jsonlog] = [b_jsonlog, c_jsonlog]"
  by (simp add: candidates_def regular_files_def looks_jsonish_def lower_def lower_char_def
      a_txt_def b_jsonlog_def c_jsonlog_def)

text \<open>
  An override; a directory holding the single file \<open>x.log\<close>; a directory holding \<open>a.txt\<close>,
  \<open>b.jsonlog\<close> and \<open>c.jsonlog\<close>, of which \<open>b.jsonlog\<close> is the newest; a directory that
  cannot be listed.
\<close>

theorem detect_log_file_resolves_witness:
  "detect_log_file (Some ''/tmp/out.jsonl'') (Inr [x_log]) = ''/tmp/out.jsonl'' \<and>
   detect_log_file None (Inr [x_log]) = ''/logs/x.log'' \<and>
   detect_log_file None (Inr [a_txt, b_jsonlog, c_jsonlog]) = ''/logs/b.jsonlog'' \<and>
   detect_log_file None (Inl OSError) = ''/logs/ft_transcendence.jsonl''"
proof -
  have "detect_log_file (Some ''/tmp/out.jsonl'') (Inr [x_log]) = ''/tmp/out.jsonl''"
    using detect_log_file_resolves [of "Some ''/tmp/out.jsonl''" "''/tmp/out.jsonl''" "Inr [x_log]"]
    by simp
  moreover have "detect_log_file None (Inr [x_log]) = ''/logs/x.log''"
    using detect_log_file_resolves [of None _ "Inr [x_log]" x_log]
    by (simp add: x_log_def path_str_def logs_dir_def)
  moreover have "detect_log_file None (Inr [a_txt, b_jsonlog, c_jsonlog]) = ''/logs/b.jsonlog''"
  proof -
    let ?paths = "[a_txt, b_jsonlog, c_jsonlog]"
    have "\<not> (\<exists>p. ?paths = [p] \<and> is_file p = Inr True)" by simp
    moreover have "\<not> fs_error ?paths"
      unfolding fs_error_def scenario_candidates
      by (simp add: a_txt_def b_jsonlog_def c_jsonlog_def)
    moreover have "candidates ?paths \<noteq> []" by (simp add: scenario_candidates)
    ultimately obtain p t where p: "p \<in> set (candidates ?paths)" "st_mtime p = Inr t"
      and r: "detect_log_file None (Inr ?paths) = path_str p"
      and m: "\<forall>q\<in>set (candidates ?paths). \<forall>t'. st_mtime q = Inr t' \<longrightarrow> t' \<le> t"
      using detect_log_file_resolves [of None _ "Inr ?paths" _ ?paths] by auto
    from m have "300 \<le> t" unfolding scenario_candidates by (simp add: b_jsonlog_def)
    with p have "p = b_jsonlog" unfolding scenario_candidates by (auto simp: c_jsonlog_def)
    with r show ?thesis by (simp add: b_jsonlog_def path_str_def logs_dir_def)
  qed
  moreover have "detect_log_file None (Inl OSError) = ''/logs/ft_transcendence.jsonl''"
    using detect_log_file_resolves [of None _ "Inl OSError" _ _ OSError]
    by (simp add: fallback_def)
  ultimately show ?thesis by blast
qed

text \<open>
  C2, as stated, returns the one file of a directory that contains exactly one file. A
  directory with the file \<open>a.txt\<close> and the subdirectory \<open>archive\<close> contains exactly one
  file, yet the listing has two entries and the fallback path is returned, not
  \<open>/logs/a.txt\<close>. As stated it also returns an override that is present verbatim; a
  \<open>LOG_FILE\<close> set to the empty string is not returned.
\<close>

theorem detect_log_file_not_single_file:
  "regular_files [a_txt, archive_dir] = [a_txt] \<and>
   detect_log_file None (Inr [a_txt, archive_dir]) = ''/logs/ft_transcendence.jsonl'' \<and>
   path_str a_txt = ''/logs/a.txt'' \<and>
   detect_log_file (Some []) (Inr []) = ''/logs/ft_transcendence.jsonl''"
  by (simp add: regular_files_def a_txt_def archive_dir_def detect_log_file_def try_block_def
      single_file_def looks_jsonish_def lower_def lower_char_def fallback_def path_str_def
      logs_dir_def)

section \<open>Records and the emission loop\<close>

lemma length_ROUTES: "length ROUTES = 24"
  by (simp add: ROUTES_def)

lemma distinct_ROUTES: "distinct ROUTES"
  by (simp add: ROUTES_def)

lemma ROUTES_statuses: "(url, st) \<in> set ROUTES \<Longrightarrow> st = 200 \<or> st = 404"
  by (auto simp: ROUTES_def)

lemma ROUTES_no_login: "(url, st) \<in> set ROUTES \<Longrightarrow> url \<noteq> ''/api/auth/login''"
  by (auto simp: ROUTES_def)

lemma AUTH_ROUTES_valid:
  assumes "k < 2"
  shows "AUTH_ROUTES k =
           Inr [(''POST'', ''/api/auth/refresh'', 401),
                (''POST'', ''/api/auth/login'', [200, 406] ! k),
                (''POST'', ''/api/auth/register'', 200)]"
  using assms by (simp add: AUTH_ROUTES_def random_choice_def)

lemma AUTH_ROUTES_1: "AUTH_ROUTES 1 = Inr auth_406"
  by (simp add: AUTH_ROUTES_def random_choice_def auth_406_def)

lemma login_status_cases: "k < 2 \<Longrightarrow> [200, 406 :: int] ! k = 200 \<or> [200, 406 :: int] ! k = 406"
  by (cases k) auto

lemma random_choice_mem: "random_choice xs k = Inr x \<Longrightarrow> x \<in> set xs"
  by (auto simp: random_choice_def split: if_splits)

lemma pick_route_mem:
  assumes "pick_route auth r k = Inr (meth, url, status)"
  shows "if r < 4/5 then meth = ''GET'' \<and> (url, status) \<in> set ROUTES
         else (meth, url, status) \<in> set auth"
proof (cases "r < 4/5")
  case True
  with assms obtain x where "random_choice ROUTES k = Inr x" "x = (url, status)" "meth = ''GET''"
    by (auto simp: pick_route_def split: sum.splits prod.splits)
  with True random_choice_mem [of ROUTES k x] show ?thesis by simp
next
  case False
  with assms random_choice_mem [of auth k "(meth, url, status)"] show ?thesis
    by (simp add: pick_route_def)
qed

lemma pick_route_valid:
  assumes "valid_draws auth d"
  shows "\<exists>meth url status. pick_route auth (sel d) (pick d) = Inr (meth, url, status)"
proof (cases "sel d < 4/5")
  case True
  with assms have "pick d < length ROUTES" by (simp add: valid_draws_def)
  with True show ?thesis
    by (simp add: pick_route_def random_choice_def split: prod.splits)
next
  case False
  with assms have "pick d < length auth" by (simp add: valid_draws_def)
  with False show ?thesis
    by (cases "auth ! pick d") (simp add: pick_route_def random_choice_def)
qed

lemma loop_body_written:
  assumes "valid_draws auth d"
  shows "\<exists>a b. loop_body P auth d s =
            Inr \<lparr>reqid_iter = Suc (reqid_iter s), fh = fh s @ [a, b]\<rparr> \<and>
          written P auth d a b"
proof -
  from pick_route_valid [OF assms] obtain meth url status
    where pr: "pick_route auth (sel d) (pick d) = Inr (meth, url, status)" by blast
  let ?a = "fst (fst (mk_incoming_request P (reqid_iter s) (now d) meth url
              ''localhost:3000'' (port d)))"
  let ?b = "mk_request_completed P (req_id (reqid_iter s)) status (now d) (u_rt d)"
  have "loop_body P auth d s = Inr \<lparr>reqid_iter = Suc (reqid_iter s), fh = fh s @ [?a, ?b]\<rparr>"
    by (simp add: loop_body_def pr mk_incoming_request_def log_json_def Let_def)
  moreover have "written P auth d ?a ?b"
    unfolding written_def using pr by blast
  ultimately show ?thesis by blast
qed

lemma steady_written:
  assumes "\<forall>d\<in>set ds. valid_draws auth d"
  shows "\<exists>pairs. steady P auth ds s =
            Inr \<lparr>reqid_iter = reqid_iter s + length ds,
                 fh = fh s @ concat (map (\<lambda>(a, b). [a, b]) pairs)\<rparr> \<and>
          list_all2 (\<lambda>d (a, b). written P auth d a b) ds pairs"
  using assms
proof (induction ds arbitrary: s)
  case Nil
  show ?case by (rule exI [of _ "[]"]) simp
next
  case (Cons d ds)
  then have "valid_draws auth d" by simp
  from loop_body_written [OF this] obtain a b
    where lb: "loop_body P auth d s = Inr \<lparr>reqid_iter = Suc (reqid_iter s), fh = fh s @ [a, b]\<rparr>"
      and w: "written P auth d a b" by blast
  let ?s = "\<lparr>reqid_iter = Suc (reqid_iter s), fh = fh s @ [a, b]\<rparr>"
  from Cons have "\<forall>d\<in>set ds. valid_draws auth d" by simp
  from Cons.IH [OF this, of ?s] obtain pairs
    where st: "steady P auth ds ?s =
            Inr \<lparr>reqid_iter = reqid_iter ?s + length ds,
                 fh = fh ?s @ concat (map (\<lambda>(a, b). [a, b]) pairs)\<rparr>"
      and l: "list_all2 (\<lambda>d (a, b). written P auth d a b) ds pairs" by blast
  show ?case
    by (rule exI [of _ "(a, b) # pairs"]) (simp add: lb st l w)
qed

lemma startup_fh: "startup P t = \<lparr>reqid_iter = 1, fh = mk_server_listening_entries P t\<rparr>"
  by (simp add: startup_def mk_server_listening_entries_def log_json_def)

lemma banners:
  "length (mk_server_listening_entries P t) = 3"
  "e \<in> set (mk_server_listening_entries P t) \<Longrightarrow>
     field ''time'' e = Some (JInt t) \<and>
     keys e = [''level'', ''time'', ''pid'', ''hostname'', ''msg'']"
  by (auto simp: mk_server_listening_entries_def)

lemma written_msg:
  assumes "written P auth d a b"
  shows "field ''msg'' a = Some (JStr ''incoming request'')"
    and "field ''msg'' b = Some (JStr ''request completed'')"
  using assms by (auto simp: written_def mk_incoming_request_def mk_request_completed_def Let_def)

lemma written_reqId:
  assumes "written P auth d a b"
  shows "\<exists>rid. field ''reqId'' a = Some (JStr rid) \<and> field ''reqId'' b = Some (JStr rid)"
  using assms by (auto simp: written_def mk_incoming_request_def mk_request_completed_def Let_def)

lemma py_int_floor: "0 \<le> x \<Longrightarrow> py_int x = \<lfloor>x\<rfloor>"
  by (simp add: py_int_def)

lemma float_0_8: "round64 (4/5) = 3602879701896397/4503599627370496"
  using round64_eqI [of "-1" "4/5" 7205759403792794] by simp

lemma float_0_8_fixed: "round64 (3602879701896397/4503599627370496) = 3602879701896397/4503599627370496"
  using round64_eqI [of "-1" "3602879701896397/4503599627370496" 7205759403792794] by simp

lemma span_40: "round64 (40 - 3602879701896397/4503599627370496) = 2758454771764429/70368744177664"
  using round64_eqI [of "5" "40 - 3602879701896397/4503599627370496" 5516909543528858] by simp

lemma span_40_fixed: "round64 (2758454771764429/70368744177664) = 2758454771764429/70368744177664"
  using round64_eqI [of "5" "2758454771764429/70368744177664" 5516909543528858] by simp

lemma top_40: "round64 (3602879701896397/4503599627370496 + 2758454771764429/70368744177664) = 40"
  using round64_eqI [of "5" "3602879701896397/4503599627370496 + 2758454771764429/70368744177664" 5629499534213120] by simp

lemma prod_40_half: "round64 (2758454771764429/70368744177664 * (1/2)) = 2758454771764429/140737488355328"
  using round64_eqI [of "4" "2758454771764429/70368744177664 * (1/2)" 5516909543528858] by simp

lemma sum_40_half: "round64 (3602879701896397/4503599627370496 + 2758454771764429/140737488355328) = 5742089524897383/281474976710656"
  using round64_eqI [of "4" "3602879701896397/4503599627370496 + 2758454771764429/140737488355328" 5742089524897383] by simp

lemma uniform_40_half: "uniform (round64 (4/5)) 40 (1/2) = 5742089524897383/281474976710656"
  by (simp only: uniform_def float_0_8 span_40 prod_40_half sum_40_half)

lemma prod_40_quarter: "round64 (2758454771764429/70368744177664 * (1/4)) = 2758454771764429/281474976710656"
  using round64_eqI [of "3" "2758454771764429/70368744177664 * (1/4)" 5516909543528858] by simp

lemma sum_40_quarter: "round64 (3602879701896397/4503599627370496 + 2758454771764429/281474976710656) = 1491817376566477/140737488355328"
  using round64_eqI [of "3" "3602879701896397/4503599627370496 + 2758454771764429/281474976710656" 5967269506265908] by simp

lemma uniform_40_quarter: "uniform (round64 (4/5)) 40 (1/4) = 1491817376566477/140737488355328"
  by (simp only: uniform_def float_0_8 span_40 prod_40_quarter sum_40_quarter)

lemma prod_40_near8: "round64 (2758454771764429/70368744177664 * (206797942073135/1125899906842624)) = 8106479329266893/1125899906842624"
  using round64_eqI [of "2" "2758454771764429/70368744177664 * (206797942073135/1125899906842624)" 8106479329266893] by simp

lemma sum_40_near8: "round64 (3602879701896397/4503599627370496 + 8106479329266893/1125899906842624) = 8"
  using round64_eqI [of "3" "3602879701896397/4503599627370496 + 8106479329266893/1125899906842624" 4503599627370496] by simp

lemma uniform_40_near8: "uniform (round64 (4/5)) 40 (206797942073135/1125899906842624) = 8"
  by (simp only: uniform_def float_0_8 span_40 prod_40_near8 sum_40_near8)

lemma span_300: "round64 (300 - 3602879701896397/4503599627370496) = 5263582064489267/17592186044416"
  using round64_eqI [of "8" "300 - 3602879701896397/4503599627370496" 5263582064489267] by simp

lemma span_300_fixed: "round64 (5263582064489267/17592186044416) = 5263582064489267/17592186044416"
  using round64_eqI [of "8" "5263582064489267/17592186044416" 5263582064489267] by simp

lemma top_300: "round64 (3602879701896397/4503599627370496 + 5263582064489267/17592186044416) = 300"
  using round64_eqI [of "8" "3602879701896397/4503599627370496 + 5263582064489267/17592186044416" 5277655813324800] by simp

lemma prod_300_half: "round64 (5263582064489267/17592186044416 * (1/2)) = 5263582064489267/35184372088832"
  using round64_eqI [of "7" "5263582064489267/17592186044416 * (1/2)" 5263582064489267] by simp

lemma sum_300_half: "round64 (3602879701896397/4503599627370496 + 5263582064489267/35184372088832) = 5291729562160333/35184372088832"
  using round64_eqI [of "7" "3602879701896397/4503599627370496 + 5263582064489267/35184372088832" 5291729562160333] by simp

lemma uniform_300_half: "uniform (round64 (4/5)) 300 (1/2) = 5291729562160333/35184372088832"
  by (simp only: uniform_def float_0_8 span_300 prod_300_half sum_300_half)

lemma prod_300_quarter: "round64 (5263582064489267/17592186044416 * (1/4)) = 5263582064489267/70368744177664"
  using round64_eqI [of "6" "5263582064489267/17592186044416 * (1/4)" 5263582064489267] by simp

lemma sum_300_quarter: "round64 (3602879701896397/4503599627370496 + 5263582064489267/70368744177664) = 2659938529915699/35184372088832"
  using round64_eqI [of "6" "3602879701896397/4503599627370496 + 5263582064489267/70368744177664" 5319877059831398] by simp

lemma uniform_300_quarter: "uniform (round64 (4/5)) 300 (1/4) = 2659938529915699/35184372088832"
  by (simp only: uniform_def float_0_8 span_300 prod_300_quarter sum_300_quarter)

lemma prod_300_near8: "round64 (5263582064489267/17592186044416 * (206797942073135/1125899906842624)) = 7734243033535249/140737488355328"
  using round64_eqI [of "5" "5263582064489267/17592186044416 * (206797942073135/1125899906842624)" 7734243033535249] by simp

lemma sum_300_near8: "round64 (3602879701896397/4503599627370496 + 7734243033535249/140737488355328) = 7846833024219511/140737488355328"
  using round64_eqI [of "5" "3602879701896397/4503599627370496 + 7734243033535249/140737488355328" 7846833024219511] by simp

lemma uniform_300_near8: "uniform (round64 (4/5)) 300 (206797942073135/1125899906842624) = 7846833024219511/140737488355328"
  by (simp only: uniform_def float_0_8 span_300 prod_300_near8 sum_300_near8)

lemma uniform_lower:
  assumes "0 \<le> u" "0 \<le> a" "a \<le> b" "round64 a = a"
  shows "a \<le> uniform a b u"
proof -
  have "0 \<le> round64 (b - a)" using assms by (intro round64_nonneg) simp
  then have "0 \<le> round64 (b - a) * u" using assms by simp
  then have "0 \<le> round64 (round64 (b - a) * u)" by (rule round64_nonneg)
  then have "a \<le> a + round64 (round64 (b - a) * u)" by simp
  with assms(2) have "round64 a \<le> round64 (a + round64 (round64 (b - a) * u))"
    by (rule round64_mono)
  then show ?thesis by (simp add: uniform_def assms(4))
qed

lemma uniform_upper:
  assumes "0 \<le> u" "u \<le> 1" "0 \<le> a" "a \<le> b" "round64 (round64 (b - a)) = round64 (b - a)"
  shows "uniform a b u \<le> round64 (a + round64 (b - a))"
proof -
  let ?D = "round64 (b - a)"
  have D: "0 \<le> ?D" using assms by (intro round64_nonneg) simp
  then have p0: "0 \<le> ?D * u" using assms by simp
  have "?D * u \<le> ?D * 1" using D assms(2) by (intro mult_left_mono)
  then have "?D * u \<le> ?D" by simp
  with p0 have "round64 (?D * u) \<le> round64 ?D" by (rule round64_mono)
  then have le: "a + round64 (?D * u) \<le> a + ?D" using assms(5) by simp
  have "0 \<le> a + round64 (?D * u)" using assms(3) round64_nonneg [OF p0] by simp
  then have "round64 (a + round64 (?D * u)) \<le> round64 (a + ?D)" using le by (rule round64_mono)
  then show ?thesis by (simp add: uniform_def)
qed

lemma uniform_40_bounds:
  assumes "0 \<le> u" "u \<le> 1"
  shows "round64 (4/5) \<le> uniform (round64 (4/5)) 40 u" "uniform (round64 (4/5)) 40 u \<le> 40"
proof -
  show "round64 (4/5) \<le> uniform (round64 (4/5)) 40 u"
    using assms(1) by (intro uniform_lower) (simp_all add: float_0_8 float_0_8_fixed)
  have i: "round64 (round64 (40 - round64 (4/5))) = round64 (40 - round64 (4/5))"
    by (simp only: float_0_8 span_40 span_40_fixed)
  have a: "0 \<le> round64 (4/5)" "round64 (4/5) \<le> 40" by (simp_all add: float_0_8)
  have "uniform (round64 (4/5)) 40 u \<le> round64 (round64 (4/5) + round64 (40 - round64 (4/5)))"
    by (rule uniform_upper [OF assms a i])
  then show "uniform (round64 (4/5)) 40 u \<le> 40"
    by (simp only: float_0_8 span_40 top_40)
qed

lemma uniform_300_bounds:
  assumes "0 \<le> u" "u \<le> 1"
  shows "round64 (4/5) \<le> uniform (round64 (4/5)) 300 u" "uniform (round64 (4/5)) 300 u \<le> 300"
proof -
  show "round64 (4/5) \<le> uniform (round64 (4/5)) 300 u"
    using assms(1) by (intro uniform_lower) (simp_all add: float_0_8 float_0_8_fixed)
  have i: "round64 (round64 (300 - round64 (4/5))) = round64 (300 - round64 (4/5))"
    by (simp only: float_0_8 span_300 span_300_fixed)
  have a: "0 \<le> round64 (4/5)" "round64 (4/5) \<le> 300" by (simp_all add: float_0_8)
  have "uniform (round64 (4/5)) 300 u \<le> round64 (round64 (4/5) + round64 (300 - round64 (4/5)))"
    by (rule uniform_upper [OF assms a i])
  then show "uniform (round64 (4/5)) 300 u \<le> 300"
    by (simp only: float_0_8 span_300 top_300)
qed

lemma float_0_8_ge: "4/5 \<le> round64 (4/5)"
  by (simp add: float_0_8)

lemma completed_fields:
  "field ''time'' (mk_request_completed P rid s t0 u) =
     Some (JInt (t0 + py_int (if s = 200 then uniform (round64 (4/5)) 40 u
        else uniform (round64 (4/5)) 300 u)))"
  "field ''responseTime'' (mk_request_completed P rid s t0 u) =
     Some (JFloat (if s = 200 then uniform (round64 (4/5)) 40 u
        else uniform (round64 (4/5)) 300 u))"
  "field ''reqId'' (mk_request_completed P rid s t0 u) = Some (JStr rid)"
  "field2 ''res'' ''statusCode'' (mk_request_completed P rid s t0 u) = Some (JInt s)"
  by (simp_all add: mk_request_completed_def Let_def field2_def)

lemma incoming_fields:
  "field ''time'' (fst (fst (mk_incoming_request P i t m url h p))) = Some (JInt t)"
  "field ''reqId'' (fst (fst (mk_incoming_request P i t m url h p))) = Some (JStr (req_id i))"
  "field2 ''req'' ''method'' (fst (fst (mk_incoming_request P i t m url h p))) = Some (JStr m)"
  "field2 ''req'' ''url'' (fst (fst (mk_incoming_request P i t m url h p))) = Some (JStr url)"
  by (simp_all add: mk_incoming_request_def Let_def field2_def)

lemma response_time_bounds:
  fixes s :: int
  assumes "0 \<le> u" "u < 1"
  shows "4/5 \<le> (if s = 200 then uniform (round64 (4/5)) 40 u
        else uniform (round64 (4/5)) 300 u)"
    and "(if s = 200 then uniform (round64 (4/5)) 40 u
        else uniform (round64 (4/5)) 300 u) \<le> 300"
proof -
  from assms have u: "0 \<le> u" "u \<le> 1" by simp_all
  note b = uniform_40_bounds [OF u] uniform_300_bounds [OF u] float_0_8_ge
  have lo: "4/5 \<le> uniform (round64 (4/5)) 40 u" "4/5 \<le> uniform (round64 (4/5)) 300 u"
    using b by linarith+
  have hi: "uniform (round64 (4/5)) 40 u \<le> 300" "uniform (round64 (4/5)) 300 u \<le> 300"
    using b by linarith+
  show "4/5 \<le> (if s = 200 then uniform (round64 (4/5)) 40 u
        else uniform (round64 (4/5)) 300 u)"
    using lo by (cases "s = 200") simp_all
  show "(if s = 200 then uniform (round64 (4/5)) 40 u
        else uniform (round64 (4/5)) 300 u) \<le> 300"
    using hi by (cases "s = 200") simp_all
qed

lemma written_time:
  assumes "written P auth d a b" "0 \<le> u_rt d" "u_rt d < 1"
  shows "\<exists>t0 t1 rt. field ''time'' a = Some (JInt t0) \<and> field ''time'' b = Some (JInt t1) \<and>
           field ''responseTime'' b = Some (JFloat rt) \<and>
           t1 = t0 + \<lfloor>rt\<rfloor> \<and> 4/5 \<le> rt \<and> t0 \<le> t1"
proof -
  from assms(1) obtain i meth url status
    where a: "a = fst (fst (mk_incoming_request P i (now d) meth url ''localhost:3000'' (port d)))"
      and b: "b = mk_request_completed P (req_id i) status (now d) (u_rt d)"
    unfolding written_def by blast
  let ?rt = "if status = 200 then uniform (round64 (4/5)) 40 (u_rt d)
        else uniform (round64 (4/5)) 300 (u_rt d)"
  have rt: "4/5 \<le> ?rt" using response_time_bounds(1) [OF assms(2,3)] by simp
  then have "0 \<le> ?rt" by linarith
  then have fl: "py_int ?rt = \<lfloor>?rt\<rfloor>" "0 \<le> \<lfloor>?rt\<rfloor>" by (simp_all add: py_int_floor)
  show ?thesis
    apply (rule exI [of _ "now d"], rule exI [of _ "now d + \<lfloor>?rt\<rfloor>"], rule exI [of _ ?rt])
    using rt fl unfolding a b completed_fields incoming_fields by simp
qed

lemma written_login:
  assumes "written P auth d a b" "AUTH_ROUTES k = Inr auth" "k < 2"
    and "field2 ''req'' ''url'' a = Some (JStr ''/api/auth/login'')"
  shows "field2 ''res'' ''statusCode'' b = Some (JInt ([200, 406] ! k))"
proof -
  from assms(1) obtain i meth url status
    where pr: "pick_route auth (sel d) (pick d) = Inr (meth, url, status)"
      and a: "a = fst (fst (mk_incoming_request P i (now d) meth url ''localhost:3000'' (port d)))"
      and b: "b = mk_request_completed P (req_id i) status (now d) (u_rt d)"
    unfolding written_def by blast
  from assms(4) have url: "url = ''/api/auth/login''"
    unfolding a incoming_fields by simp
  have auth: "auth = [(''POST'', ''/api/auth/refresh'', 401),
                (''POST'', ''/api/auth/login'', [200, 406] ! k),
                (''POST'', ''/api/auth/register'', 200)]"
    using AUTH_ROUTES_valid [OF assms(3)] assms(2) by simp
  have "status = [200, 406] ! k"
  proof (cases "sel d < 4/5")
    case True
    with pick_route_mem [OF pr] have "(url, status) \<in> set ROUTES" by simp
    with ROUTES_no_login url show ?thesis by blast
  next
    case False
    with pick_route_mem [OF pr] have "(meth, url, status) \<in> set auth" by simp
    with url show ?thesis unfolding auth by auto
  qed
  then show ?thesis unfolding b completed_fields by simp
qed

lemma valid_examples:
  "valid_draws auth_406 d_get" "valid_draws auth_406 d_auth" "valid_draws auth_406 d_home"
  "valid_draws auth_406 d_near8"
  by (simp_all add: valid_draws_def d_get_def d_auth_def d_home_def d_near8_def auth_406_def
      length_ROUTES)

lemma main_written:
  assumes "\<forall>d\<in>set ds. valid_draws auth d"
  shows "\<exists>pairs. main P auth t ds =
            Inr \<lparr>reqid_iter = 1 + length ds,
                 fh = mk_server_listening_entries P t @ concat (map (\<lambda>(a, b). [a, b]) pairs)\<rparr> \<and>
          list_all2 (\<lambda>d (a, b). written P auth d a b) ds pairs"
  using steady_written [OF assms, of P "startup P t"] by (simp add: main_def startup_fh)

text \<open>
  C1. Every iteration of the loop appends two records to the output, the incoming-request
  record first and the completed record second; both carry the same \<open>reqId\<close>, and the
  \<open>time\<close> of the completed record is not below the \<open>time\<close> of the incoming record.
\<close>

theorem loop_body_correlated:
  assumes "valid_draws auth d"
  shows "\<exists>a b rid t0 t1.
           loop_body P auth d s = Inr \<lparr>reqid_iter = Suc (reqid_iter s), fh = fh s @ [a, b]\<rparr> \<and>
           field ''msg'' a = Some (JStr ''incoming request'') \<and>
           field ''msg'' b = Some (JStr ''request completed'') \<and>
           field ''reqId'' a = Some (JStr rid) \<and> field ''reqId'' b = Some (JStr rid) \<and>
           field ''time'' a = Some (JInt t0) \<and> field ''time'' b = Some (JInt t1) \<and> t0 \<le> t1"
proof -
  from loop_body_written [OF assms] obtain a b
    where lb: "loop_body P auth d s = Inr \<lparr>reqid_iter = Suc (reqid_iter s), fh = fh s @ [a, b]\<rparr>"
      and w: "written P auth d a b" by blast
  from assms have u: "0 \<le> u_rt d" "u_rt d < 1" by (simp_all add: valid_draws_def)
  from written_reqId [OF w] obtain rid
    where "field ''reqId'' a = Some (JStr rid)" "field ''reqId'' b = Some (JStr rid)" by blast
  moreover from written_time [OF w u] obtain t0 t1
    where "field ''time'' a = Some (JInt t0)" "field ''time'' b = Some (JInt t1)" "t0 \<le> t1"
    by blast
  ultimately show ?thesis using lb written_msg [OF w] by blast
qed

text \<open>The first iteration after the banners, with a route of the general catalog.\<close>

theorem loop_body_correlated_witness:
  "valid_draws auth_406 d_get \<and>
   (\<exists>a b rid t0 t1.
      loop_body P0 auth_406 d_get (startup P0 7) =
        Inr \<lparr>reqid_iter = Suc (reqid_iter (startup P0 7)), fh = fh (startup P0 7) @ [a, b]\<rparr> \<and>
      field ''msg'' a = Some (JStr ''incoming request'') \<and>
      field ''msg'' b = Some (JStr ''request completed'') \<and>
      field ''reqId'' a = Some (JStr rid) \<and> field ''reqId'' b = Some (JStr rid) \<and>
      field ''time'' a = Some (JInt t0) \<and> field ''time'' b = Some (JInt t1) \<and> t0 \<le> t1)"
  using loop_body_correlated [OF valid_examples(1), of P0 "startup P0 7"] valid_examples(1)
  by blast

text \<open>
  C3, amended. In every iteration the \<open>time\<close> of the completed record is the \<open>time\<close> of
  the incoming record plus the \<open>responseTime\<close> truncated to an integer: it is at least the
  incoming \<open>time\<close>, at most the incoming \<open>time\<close> plus \<open>responseTime\<close>, and less than one
  below that sum.
\<close>

theorem completed_time_truncated:
  assumes "valid_draws auth d"
  shows "\<exists>a b t0 t1 rt.
           loop_body P auth d s = Inr \<lparr>reqid_iter = Suc (reqid_iter s), fh = fh s @ [a, b]\<rparr> \<and>
           field ''time'' a = Some (JInt t0) \<and> field ''time'' b = Some (JInt t1) \<and>
           field ''responseTime'' b = Some (JFloat rt) \<and>
           t1 = t0 + \<lfloor>rt\<rfloor> \<and> t0 \<le> t1 \<and>
           of_int t1 \<le> of_int t0 + rt \<and> of_int t0 + rt < of_int t1 + 1"
proof -
  from loop_body_written [OF assms] obtain a b
    where lb: "loop_body P auth d s = Inr \<lparr>reqid_iter = Suc (reqid_iter s), fh = fh s @ [a, b]\<rparr>"
      and w: "written P auth d a b" by blast
  from assms have u: "0 \<le> u_rt d" "u_rt d < 1" by (simp_all add: valid_draws_def)
  from written_time [OF w u] obtain t0 t1 rt
    where f: "field ''time'' a = Some (JInt t0)" "field ''time'' b = Some (JInt t1)"
      "field ''responseTime'' b = Some (JFloat rt)" and t: "t1 = t0 + \<lfloor>rt\<rfloor>" "t0 \<le> t1"
    by blast
  have "of_int t1 \<le> of_int t0 + rt" "of_int t0 + rt < of_int t1 + 1"
    using floor_correct [of rt] unfolding t(1) by simp_all
  with lb f t show ?thesis by blast
qed

text \<open>The first iteration after the banners, for the route \<open>/\<close>.\<close>

theorem completed_time_truncated_witness:
  "valid_draws auth_406 d_home \<and>
   (\<exists>a b t0 t1 rt.
      loop_body P0 auth_406 d_home (startup P0 7) =
        Inr \<lparr>reqid_iter = Suc (reqid_iter (startup P0 7)), fh = fh (startup P0 7) @ [a, b]\<rparr> \<and>
      field ''time'' a = Some (JInt t0) \<and> field ''time'' b = Some (JInt t1) \<and>
      field ''responseTime'' b = Some (JFloat rt) \<and>
      t1 = t0 + \<lfloor>rt\<rfloor> \<and> t0 \<le> t1 \<and>
      of_int t1 \<le> of_int t0 + rt \<and> of_int t0 + rt < of_int t1 + 1)"
  using completed_time_truncated [OF valid_examples(3), of P0 "startup P0 7"] valid_examples(3)
  by blast

lemma req_id_1: "req_id (Suc 0) = ''req-0''"
  by (simp add: req_id_def format_x_small digit_char_def)

lemma loop_body_home:
  "loop_body P0 auth_406 d_home (startup P0 7) =
     Inr \<lparr>reqid_iter = 2,
          fh = mk_server_listening_entries P0 7 @
            [fst (fst (mk_incoming_request P0 1 1000 ''GET'' ''/'' ''localhost:3000'' 53100)),
             mk_request_completed P0 ''req-0'' 200 1000 (1/2)]\<rparr>"
  by (simp add: loop_body_def pick_route_def random_choice_def ROUTES_def d_home_def
      startup_fh mk_incoming_request_def log_json_def Let_def req_id_1)

text \<open>
  C3, as stated, puts the \<open>time\<close> of the completed record at or above the incoming \<open>time\<close>
  plus \<open>responseTime\<close>. In the first iteration with the route \<open>/\<close>, the clock at 1000 and
  the draw \<open>1/2\<close>, the incoming \<open>time\<close> is 1000, \<open>responseTime\<close> is the binary64 number
  20.400000000000002 and the completed \<open>time\<close> is 1020, which is below their sum.
\<close>

theorem completed_time_below_elapsed:
  "field ''time'' (fh (projr (loop_body P0 auth_406 d_home (startup P0 7))) ! 3) = Some (JInt 1000) \<and>
   field ''time'' (fh (projr (loop_body P0 auth_406 d_home (startup P0 7))) ! 4) = Some (JInt 1020) \<and>
   field ''responseTime'' (fh (projr (loop_body P0 auth_406 d_home (startup P0 7))) ! 4) =
     Some (JFloat (5742089524897383/281474976710656)) \<and>
   \<not> (1000 + 5742089524897383/281474976710656 \<le> (1020::real))"
  by (simp add: loop_body_home mk_server_listening_entries_def incoming_fields completed_fields
      uniform_40_half py_int_def)

lemma AUTH_ROUTES_statuses:
  assumes "AUTH_ROUTES k = Inr auth" "(m, url, st) \<in> set auth"
  shows "st = 200 \<or> st = 401 \<or> st = 406"
proof -
  from assms(1) have k: "k < 2"
    by (auto simp: AUTH_ROUTES_def random_choice_def split: if_splits)
  with AUTH_ROUTES_valid [OF k] login_status_cases [OF k] assms show ?thesis by auto
qed

lemma AUTH_ROUTES_shape:
  assumes "AUTH_ROUTES k = Inr auth"
  shows "length auth = 3" "distinct auth"
proof -
  from assms(1) have k: "k < 2"
    by (auto simp: AUTH_ROUTES_def random_choice_def split: if_splits)
  with AUTH_ROUTES_valid [OF k] assms show "length auth = 3" "distinct auth" by auto
qed

lemma response_time_cases:
  assumes "0 \<le> u" "u < 1"
  shows "\<exists>rt. field ''responseTime'' (mk_request_completed P rid s t0 u) = Some (JFloat rt) \<and>
              field ''time'' (mk_request_completed P rid s t0 u) = Some (JInt (t0 + py_int rt)) \<and>
              py_int rt = \<lfloor>rt\<rfloor> \<and>
              (s = 200 \<longrightarrow>
                 rt = round64 (round64 (4/5) + round64 (round64 (40 - round64 (4/5)) * u)) \<and>
                 round64 (4/5) \<le> rt \<and> rt \<le> 40) \<and>
              (s \<noteq> 200 \<longrightarrow>
                 rt = round64 (round64 (4/5) + round64 (round64 (300 - round64 (4/5)) * u)) \<and>
                 round64 (4/5) \<le> rt \<and> rt \<le> 300)"
proof -
  from assms have u: "0 \<le> u" "u \<le> 1" by simp_all
  show ?thesis
  proof (cases "s = 200")
    case True
    let ?rt = "uniform (round64 (4/5)) 40 u"
    have b: "round64 (4/5) \<le> ?rt" "?rt \<le> 40" by (rule uniform_40_bounds [OF u])+
    then have "0 \<le> ?rt" using float_0_8_ge by linarith
    then have "py_int ?rt = \<lfloor>?rt\<rfloor>" by (rule py_int_floor)
    moreover have "?rt = round64 (round64 (4/5) + round64 (round64 (40 - round64 (4/5)) * u))"
      by (simp only: uniform_def)
    ultimately show ?thesis using b True
      by (intro exI [of _ ?rt]) (simp add: completed_fields)
  next
    case False
    let ?rt = "uniform (round64 (4/5)) 300 u"
    have b: "round64 (4/5) \<le> ?rt" "?rt \<le> 300" by (rule uniform_300_bounds [OF u])+
    then have "0 \<le> ?rt" using float_0_8_ge by linarith
    then have "py_int ?rt = \<lfloor>?rt\<rfloor>" by (rule py_int_floor)
    moreover have "?rt = round64 (round64 (4/5) + round64 (round64 (300 - round64 (4/5)) * u))"
      by (simp only: uniform_def)
    ultimately show ?thesis using b False
      by (intro exI [of _ ?rt]) (simp add: completed_fields)
  qed
qed

lemma catalog_status_success:
  assumes "AUTH_ROUTES k = Inr auth" "pick_route auth r j = Inr (meth, url, status)"
  shows "(200 \<le> status \<and> status < 300) = (status = 200)"
proof (cases "r < 4/5")
  case True
  with pick_route_mem [OF assms(2)] have "(url, status) \<in> set ROUTES" by simp
  from ROUTES_statuses [OF this] show ?thesis by auto
next
  case False
  with pick_route_mem [OF assms(2)] have "(meth, url, status) \<in> set auth" by simp
  from AUTH_ROUTES_statuses [OF assms(1) this] show ?thesis by auto
qed

lemma loop_body_response_time:
  assumes "AUTH_ROUTES k = Inr auth" "valid_draws auth d"
  shows "\<exists>a b t0 status rt.
           loop_body P auth d st = Inr \<lparr>reqid_iter = Suc (reqid_iter st), fh = fh st @ [a, b]\<rparr> \<and>
           field ''time'' a = Some (JInt t0) \<and>
           field2 ''res'' ''statusCode'' b = Some (JInt status) \<and>
           field ''responseTime'' b = Some (JFloat rt) \<and>
           field ''time'' b = Some (JInt (t0 + py_int rt)) \<and>
           ((200 \<le> status \<and> status < 300) = (status = 200)) \<and>
           (200 \<le> status \<and> status < 300 \<longrightarrow>
              rt = round64 (round64 (4/5) + round64 (round64 (40 - round64 (4/5)) * u_rt d)) \<and>
              round64 (4/5) \<le> rt \<and> rt \<le> 40) \<and>
           (\<not> (200 \<le> status \<and> status < 300) \<longrightarrow>
              rt = round64 (round64 (4/5) + round64 (round64 (300 - round64 (4/5)) * u_rt d)) \<and>
              round64 (4/5) \<le> rt \<and> rt \<le> 300)"
proof -
  from loop_body_written [OF assms(2)] obtain a b
    where lb: "loop_body P auth d st = Inr \<lparr>reqid_iter = Suc (reqid_iter st), fh = fh st @ [a, b]\<rparr>"
      and w: "written P auth d a b" by blast
  from w obtain i meth url status
    where pr: "pick_route auth (sel d) (pick d) = Inr (meth, url, status)"
      and a: "a = fst (fst (mk_incoming_request P i (now d) meth url ''localhost:3000'' (port d)))"
      and b: "b = mk_request_completed P (req_id i) status (now d) (u_rt d)"
    unfolding written_def by blast
  from assms(2) have u: "0 \<le> u_rt d" "u_rt d < 1" by (simp_all add: valid_draws_def)
  have sc: "(200 \<le> status \<and> status < 300) = (status = 200)"
    by (rule catalog_status_success [OF assms(1) pr])
  from response_time_cases [OF u, of P "req_id i" status "now d"] obtain rt
    where rt: "field ''responseTime'' b = Some (JFloat rt)"
        "field ''time'' b = Some (JInt (now d + py_int rt))"
        "status = 200 \<longrightarrow>
           rt = round64 (round64 (4/5) + round64 (round64 (40 - round64 (4/5)) * u_rt d)) \<and>
           round64 (4/5) \<le> rt \<and> rt \<le> 40"
        "status \<noteq> 200 \<longrightarrow>
           rt = round64 (round64 (4/5) + round64 (round64 (300 - round64 (4/5)) * u_rt d)) \<and>
           round64 (4/5) \<le> rt \<and> rt \<le> 300"
    unfolding b by blast
  have ta: "field ''time'' a = Some (JInt (now d))" unfolding a by (rule incoming_fields)
  have st: "field2 ''res'' ''statusCode'' b = Some (JInt status)"
    unfolding b by (rule completed_fields)
  from lb ta st rt sc show ?thesis by blast
qed

text \<open>
  C4. For a completed record built from the status code \<open>s\<close> and the start time \<open>t0\<close>,
  \<open>responseTime\<close> is the elapsed time \<open>rt\<close> itself and \<open>time\<close> is \<open>t0 + int(rt)\<close>, where \<open>rt\<close>
  is \<open>0.8 + (40.0 - 0.8) * u\<close>, within \<open>[0.8, 40]\<close>, when \<open>s\<close> passes the success test of
  the code, \<open>status_code == 200\<close>, and \<open>0.8 + (300.0 - 0.8) * u\<close>, within \<open>[0.8, 300]\<close>,
  otherwise; \<open>u\<close> is the draw and each operation rounds to binary64. In every iteration
  of the program the status code comes from a catalog, where the codes from 200 to 299
  are the code 200 alone: there the fast range is drawn exactly for the success codes.
\<close>

theorem completed_response_time:
  assumes "0 \<le> u" "u < 1"
  shows "(\<exists>rt. field ''responseTime'' (mk_request_completed P rid s t0 u) = Some (JFloat rt) \<and>
               field ''time'' (mk_request_completed P rid s t0 u) = Some (JInt (t0 + py_int rt)) \<and>
               py_int rt = \<lfloor>rt\<rfloor> \<and>
               (s = 200 \<longrightarrow>
                  rt = round64 (round64 (4/5) + round64 (round64 (40 - round64 (4/5)) * u)) \<and>
                  round64 (4/5) \<le> rt \<and> rt \<le> 40) \<and>
               (s \<noteq> 200 \<longrightarrow>
                  rt = round64 (round64 (4/5) + round64 (round64 (300 - round64 (4/5)) * u)) \<and>
                  round64 (4/5) \<le> rt \<and> rt \<le> 300)) \<and>
         (AUTH_ROUTES k = Inr auth \<and> valid_draws auth d \<longrightarrow>
            (\<exists>a b t0 status rt.
               loop_body P auth d st =
                 Inr \<lparr>reqid_iter = Suc (reqid_iter st), fh = fh st @ [a, b]\<rparr> \<and>
               field ''time'' a = Some (JInt t0) \<and>
               field2 ''res'' ''statusCode'' b = Some (JInt status) \<and>
               field ''responseTime'' b = Some (JFloat rt) \<and>
               field ''time'' b = Some (JInt (t0 + py_int rt)) \<and>
               ((200 \<le> status \<and> status < 300) = (status = 200)) \<and>
               (200 \<le> status \<and> status < 300 \<longrightarrow>
                  rt = round64 (round64 (4/5) + round64 (round64 (40 - round64 (4/5)) * u_rt d)) \<and>
                  round64 (4/5) \<le> rt \<and> rt \<le> 40) \<and>
               (\<not> (200 \<le> status \<and> status < 300) \<longrightarrow>
                  rt = round64 (round64 (4/5) + round64 (round64 (300 - round64 (4/5)) * u_rt d)) \<and>
                  round64 (4/5) \<le> rt \<and> rt \<le> 300)))"
  using response_time_cases [OF assms, of P rid s t0] loop_body_response_time [of k auth d P st]
  by blast

text \<open>
  Three draws for the status code 200 and one for 404, at the start time 1000: \<open>1/2\<close>
  gives 20.400000000000002 and the time 1020, \<open>1/4\<close> gives 10.600000000000001 and 1010,
  \<open>206797942073135 / 2^50\<close> gives 8.0 and 1008 (over the reals the sum would stay below
  8); for 404 the draw \<open>1/2\<close> gives 150.4 and 1150. The last part is the first iteration
  of a run, for the route \<open>/\<close>.
\<close>

theorem completed_response_time_witness:
  "(0::real) \<le> 1/2 \<and> (1/2::real) < 1 \<and>
   field ''responseTime'' (mk_request_completed P0 ''req-0'' 200 1000 (1/2)) =
     Some (JFloat (5742089524897383/281474976710656)) \<and>
   field ''time'' (mk_request_completed P0 ''req-0'' 200 1000 (1/2)) = Some (JInt 1020) \<and>
   field ''responseTime'' (mk_request_completed P0 ''req-0'' 200 1000 (1/4)) =
     Some (JFloat (1491817376566477/140737488355328)) \<and>
   field ''time'' (mk_request_completed P0 ''req-0'' 200 1000 (1/4)) = Some (JInt 1010) \<and>
   field ''responseTime'' (mk_request_completed P0 ''req-0'' 200 1000 (206797942073135/1125899906842624)) =
     Some (JFloat 8) \<and>
   field ''time'' (mk_request_completed P0 ''req-0'' 200 1000 (206797942073135/1125899906842624)) =
     Some (JInt 1008) \<and>
   field ''responseTime'' (mk_request_completed P0 ''req-0'' 404 1000 (1/2)) =
     Some (JFloat (5291729562160333/35184372088832)) \<and>
   field ''time'' (mk_request_completed P0 ''req-0'' 404 1000 (1/2)) = Some (JInt 1150) \<and>
   AUTH_ROUTES 1 = Inr auth_406 \<and> valid_draws auth_406 d_near8 \<and>
   (\<exists>a b. loop_body P0 auth_406 d_near8 (startup P0 7) =
            Inr \<lparr>reqid_iter = Suc (reqid_iter (startup P0 7)), fh = fh (startup P0 7) @ [a, b]\<rparr> \<and>
          field ''time'' a = Some (JInt 1000) \<and>
          field2 ''res'' ''statusCode'' b = Some (JInt 200) \<and>
          field ''responseTime'' b = Some (JFloat 8) \<and>
          field ''time'' b = Some (JInt 1008))"
proof -
  have h: "(0::real) \<le> 1/2" "(1/2::real) < 1" by simp_all
  have q: "(0::real) \<le> 1/4" "(1/4::real) < 1" by simp_all
  have n: "(0::real) \<le> 206797942073135/1125899906842624" "(206797942073135/1125899906842624 ::real) < 1"
    by simp_all
  have e: "round64 (round64 (4/5) + round64 (round64 (40 - round64 (4/5)) * (1/2))) = 5742089524897383/281474976710656"
    "round64 (round64 (4/5) + round64 (round64 (40 - round64 (4/5)) * (1/4))) = 1491817376566477/140737488355328"
    "round64 (round64 (4/5) + round64 (round64 (40 - round64 (4/5)) * (206797942073135/1125899906842624))) = 8"
    "round64 (round64 (4/5) + round64 (round64 (300 - round64 (4/5)) * (1/2))) = 5291729562160333/35184372088832"
    using uniform_40_half uniform_40_quarter uniform_40_near8 uniform_300_half
    by (simp_all only: uniform_def)
  from completed_response_time [of "1/2" P0 "''req-0''" 200 1000, OF h, THEN conjunct1]
  obtain rt where "field ''responseTime'' (mk_request_completed P0 ''req-0'' 200 1000 (1/2)) =
             Some (JFloat rt)"
      and "field ''time'' (mk_request_completed P0 ''req-0'' 200 1000 (1/2)) =
             Some (JInt (1000 + py_int rt))"
      and "py_int rt = \<lfloor>rt\<rfloor>" and "rt = round64 (round64 (4/5) + round64 (round64 (40 - round64 (4/5)) * (1/2)))"
    by auto
  then have r1:
    "field ''responseTime'' (mk_request_completed P0 ''req-0'' 200 1000 (1/2)) =
       Some (JFloat (5742089524897383/281474976710656))"
    "field ''time'' (mk_request_completed P0 ''req-0'' 200 1000 (1/2)) = Some (JInt 1020)"
    unfolding e by simp_all
  from completed_response_time [of "1/4" P0 "''req-0''" 200 1000, OF q, THEN conjunct1]
  obtain rt where "field ''responseTime'' (mk_request_completed P0 ''req-0'' 200 1000 (1/4)) =
             Some (JFloat rt)"
      and "field ''time'' (mk_request_completed P0 ''req-0'' 200 1000 (1/4)) =
             Some (JInt (1000 + py_int rt))"
      and "py_int rt = \<lfloor>rt\<rfloor>" and "rt = round64 (round64 (4/5) + round64 (round64 (40 - round64 (4/5)) * (1/4)))"
    by auto
  then have r2:
    "field ''responseTime'' (mk_request_completed P0 ''req-0'' 200 1000 (1/4)) =
       Some (JFloat (1491817376566477/140737488355328))"
    "field ''time'' (mk_request_completed P0 ''req-0'' 200 1000 (1/4)) = Some (JInt 1010)"
    unfolding e by simp_all
  from completed_response_time [of "206797942073135/1125899906842624" P0 "''req-0''" 200 1000, OF n,
      THEN conjunct1]
  obtain rt where "field ''responseTime''
             (mk_request_completed P0 ''req-0'' 200 1000 (206797942073135/1125899906842624)) =
             Some (JFloat rt)"
      and "field ''time'' (mk_request_completed P0 ''req-0'' 200 1000 (206797942073135/1125899906842624)) =
             Some (JInt (1000 + py_int rt))"
      and "py_int rt = \<lfloor>rt\<rfloor>" and "rt = round64 (round64 (4/5) + round64 (round64 (40 - round64 (4/5)) * (206797942073135/1125899906842624)))"
    by auto
  then have r3:
    "field ''responseTime'' (mk_request_completed P0 ''req-0'' 200 1000 (206797942073135/1125899906842624)) =
       Some (JFloat 8)"
    "field ''time'' (mk_request_completed P0 ''req-0'' 200 1000 (206797942073135/1125899906842624)) =
       Some (JInt 1008)"
    unfolding e by simp_all
  from completed_response_time [of "1/2" P0 "''req-0''" 404 1000, OF h, THEN conjunct1]
  obtain rt where "field ''responseTime'' (mk_request_completed P0 ''req-0'' 404 1000 (1/2)) =
             Some (JFloat rt)"
      and "field ''time'' (mk_request_completed P0 ''req-0'' 404 1000 (1/2)) =
             Some (JInt (1000 + py_int rt))"
      and "py_int rt = \<lfloor>rt\<rfloor>" and "rt = round64 (round64 (4/5) + round64 (round64 (300 - round64 (4/5)) * (1/2)))"
    by auto
  then have r4:
    "field ''responseTime'' (mk_request_completed P0 ''req-0'' 404 1000 (1/2)) =
       Some (JFloat (5291729562160333/35184372088832))"
    "field ''time'' (mk_request_completed P0 ''req-0'' 404 1000 (1/2)) = Some (JInt 1150)"
    unfolding e by simp_all
  have v: "AUTH_ROUTES 1 = Inr auth_406 \<and> valid_draws auth_406 d_near8"
    using AUTH_ROUTES_1 valid_examples(4) by simp
  from completed_response_time [where u = "1/2" and k = 1 and auth = auth_406 and d = d_near8
      and P = P0 and st = "startup P0 7", OF h, THEN conjunct2, rule_format, OF v]
  obtain a b t0 status rt
    where lb: "loop_body P0 auth_406 d_near8 (startup P0 7) =
            Inr \<lparr>reqid_iter = Suc (reqid_iter (startup P0 7)), fh = fh (startup P0 7) @ [a, b]\<rparr>"
      and f: "field ''time'' a = Some (JInt t0)"
        "field2 ''res'' ''statusCode'' b = Some (JInt status)"
        "field ''responseTime'' b = Some (JFloat rt)"
        "field ''time'' b = Some (JInt (t0 + py_int rt))"
      and c: "200 \<le> status \<and> status < 300 \<longrightarrow>
                rt = round64 (round64 (4/5) + round64 (round64 (40 - round64 (4/5)) * u_rt d_near8)) \<and>
                round64 (4/5) \<le> rt \<and> rt \<le> 40"
    by blast
  have lb': "loop_body P0 auth_406 d_near8 (startup P0 7) =
     Inr \<lparr>reqid_iter = 2,
          fh = mk_server_listening_entries P0 7 @
            [fst (fst (mk_incoming_request P0 1 1000 ''GET'' ''/'' ''localhost:3000'' 53100)),
             mk_request_completed P0 ''req-0'' 200 1000 (206797942073135/1125899906842624)]\<rparr>"
    by (simp add: loop_body_def pick_route_def random_choice_def ROUTES_def d_near8_def
        startup_fh mk_incoming_request_def log_json_def Let_def req_id_1)
  from lb lb' have ab: "a = fst (fst (mk_incoming_request P0 1 1000 ''GET'' ''/'' ''localhost:3000'' 53100))"
    "b = mk_request_completed P0 ''req-0'' 200 1000 (206797942073135/1125899906842624)"
    by (simp_all add: startup_fh)
  from f(1) have t0: "t0 = 1000" unfolding ab by (simp add: incoming_fields)
  from f(2) have st: "status = 200" unfolding ab by (simp add: completed_fields)
  from c st have "rt = round64 (round64 (4/5) + round64 (round64 (40 - round64 (4/5)) * (206797942073135/1125899906842624)))"
    by (simp add: d_near8_def)
  then have rt: "rt = 8" unfolding e .
  from lb f t0 st rt have "\<exists>a b. loop_body P0 auth_406 d_near8 (startup P0 7) =
            Inr \<lparr>reqid_iter = Suc (reqid_iter (startup P0 7)), fh = fh (startup P0 7) @ [a, b]\<rparr> \<and>
          field ''time'' a = Some (JInt 1000) \<and>
          field2 ''res'' ''statusCode'' b = Some (JInt 200) \<and>
          field ''responseTime'' b = Some (JFloat 8) \<and>
          field ''time'' b = Some (JInt 1008)"
    by (auto simp: py_int_def)
  with h r1 r2 r3 r4 v show ?thesis by blast
qed

text \<open>
  C10. The fast range is selected by the status code 200 and by no other: every other
  code, 201 and 204 among them, draws \<open>random.uniform(0.8, 300.0)\<close>.
\<close>

theorem only_200_is_fast:
  "(s = 200 \<longrightarrow>
      field ''responseTime'' (mk_request_completed P rid s t0 u) =
        Some (JFloat (uniform (round64 (4/5)) 40 u))) \<and>
   (s \<noteq> 200 \<longrightarrow>
      field ''responseTime'' (mk_request_completed P rid s t0 u) =
        Some (JFloat (uniform (round64 (4/5)) 300 u)))"
  by (simp add: completed_fields)

text \<open>
  With the draw \<open>1/2\<close>, 200 gives 20.400000000000002, while 201 and 204 give 150.4,
  outside the fast range.
\<close>

theorem only_200_is_fast_witness:
  "field ''responseTime'' (mk_request_completed P0 ''req-0'' 200 1000 (1/2)) =
     Some (JFloat (5742089524897383/281474976710656)) \<and>
   field ''responseTime'' (mk_request_completed P0 ''req-0'' 201 1000 (1/2)) =
     Some (JFloat (5291729562160333/35184372088832)) \<and>
   field ''responseTime'' (mk_request_completed P0 ''req-0'' 204 1000 (1/2)) =
     Some (JFloat (5291729562160333/35184372088832)) \<and>
   (40::real) < 5291729562160333/35184372088832"
  using only_200_is_fast [of 200 P0 "''req-0''" 1000 "1/2"]
    only_200_is_fast [of 201 P0 "''req-0''" 1000 "1/2"]
    only_200_is_fast [of 204 P0 "''req-0''" 1000 "1/2"]
  by (simp add: uniform_40_half uniform_300_half)

text \<open>
  C6. In every iteration, a selection draw below 0.8 picks the entry of the general
  catalog at the index drawn by \<open>random.choice\<close>, with the method \<open>GET\<close>; any other
  selection draw picks the triple of the authentication catalog at the index drawn. The
  index is uniform over the positions of the catalog and the entries of each catalog are
  pairwise distinct (24 and 3 of them), so that every entry is equally likely. The
  records of the iteration carry the method, url and status code picked.
\<close>

theorem pick_route_policy:
  "(r < 4/5 \<and> j < length ROUTES \<longrightarrow>
      pick_route auth r j = Inr (''GET'', fst (ROUTES ! j), snd (ROUTES ! j))) \<and>
   (\<not> r < 4/5 \<and> j < length auth \<longrightarrow> pick_route auth r j = Inr (auth ! j)) \<and>
   length ROUTES = 24 \<and> distinct ROUTES \<and>
   (AUTH_ROUTES k = Inr auth \<longrightarrow> length auth = 3 \<and> distinct auth) \<and>
   (valid_draws auth d \<longrightarrow>
      (\<exists>a b meth url status.
         pick_route auth (sel d) (pick d) = Inr (meth, url, status) \<and>
         loop_body P auth d s = Inr \<lparr>reqid_iter = Suc (reqid_iter s), fh = fh s @ [a, b]\<rparr> \<and>
         field2 ''req'' ''method'' a = Some (JStr meth) \<and>
         field2 ''req'' ''url'' a = Some (JStr url) \<and>
         field2 ''res'' ''statusCode'' b = Some (JInt status)))"
proof (intro conjI impI)
  assume "r < 4/5 \<and> j < length ROUTES"
  then show "pick_route auth r j = Inr (''GET'', fst (ROUTES ! j), snd (ROUTES ! j))"
    by (simp add: pick_route_def random_choice_def split: prod.splits)
next
  assume "\<not> r < 4/5 \<and> j < length auth"
  then show "pick_route auth r j = Inr (auth ! j)"
    by (simp add: pick_route_def random_choice_def)
next
  show "length ROUTES = 24" by (rule length_ROUTES)
  show "distinct ROUTES" by (rule distinct_ROUTES)
next
  assume "AUTH_ROUTES k = Inr auth"
  then show "length auth = 3" "distinct auth" by (rule AUTH_ROUTES_shape)+
next
  assume "valid_draws auth d"
  from loop_body_written [OF this] obtain a b
    where lb: "loop_body P auth d s = Inr \<lparr>reqid_iter = Suc (reqid_iter s), fh = fh s @ [a, b]\<rparr>"
      and w: "written P auth d a b" by blast
  from w obtain i meth url status
    where pr: "pick_route auth (sel d) (pick d) = Inr (meth, url, status)"
      and a: "a = fst (fst (mk_incoming_request P i (now d) meth url ''localhost:3000'' (port d)))"
      and b: "b = mk_request_completed P (req_id i) status (now d) (u_rt d)"
    unfolding written_def by blast
  have "field2 ''req'' ''method'' a = Some (JStr meth)"
    "field2 ''req'' ''url'' a = Some (JStr url)"
    "field2 ''res'' ''statusCode'' b = Some (JInt status)"
    unfolding a b by (simp_all add: incoming_fields completed_fields)
  with pr lb show "\<exists>a b meth url status.
         pick_route auth (sel d) (pick d) = Inr (meth, url, status) \<and>
         loop_body P auth d s = Inr \<lparr>reqid_iter = Suc (reqid_iter s), fh = fh s @ [a, b]\<rparr> \<and>
         field2 ''req'' ''method'' a = Some (JStr meth) \<and>
         field2 ''req'' ''url'' a = Some (JStr url) \<and>
         field2 ''res'' ''statusCode'' b = Some (JInt status)" by blast
qed

text \<open>
  The selection draws \<open>1/2\<close> and \<open>9/10\<close>, and an iteration that picks the login entry.
\<close>

theorem pick_route_policy_witness:
  "pick_route auth_406 (1/2) 3 = Inr (''GET'', ''/ts/gameModesRouter.js'', 404) \<and>
   pick_route auth_406 (9/10) 1 = Inr (''POST'', ''/api/auth/login'', 406) \<and>
   AUTH_ROUTES 1 = Inr auth_406 \<and> length auth_406 = 3 \<and> distinct auth_406 \<and>
   valid_draws auth_406 d_auth \<and>
   (\<exists>a b. loop_body P0 auth_406 d_auth (startup P0 7) =
            Inr \<lparr>reqid_iter = Suc (reqid_iter (startup P0 7)), fh = fh (startup P0 7) @ [a, b]\<rparr> \<and>
          field2 ''req'' ''method'' a = Some (JStr ''POST'') \<and>
          field2 ''req'' ''url'' a = Some (JStr ''/api/auth/login'') \<and>
          field2 ''res'' ''statusCode'' b = Some (JInt 406))"
proof -
  have "pick_route auth_406 (1/2) 3 = Inr (''GET'', ''/ts/gameModesRouter.js'', 404)"
    using pick_route_policy [of "1/2" 3 auth_406] by (simp add: ROUTES_def)
  moreover have "pick_route auth_406 (9/10) 1 = Inr (''POST'', ''/api/auth/login'', 406)"
    using pick_route_policy [of "9/10" 1 auth_406] by (simp add: auth_406_def)
  moreover have "length auth_406 = 3 \<and> distinct auth_406"
    using pick_route_policy [of _ _ auth_406 1] AUTH_ROUTES_1 by blast
  moreover have "\<exists>a b. loop_body P0 auth_406 d_auth (startup P0 7) =
            Inr \<lparr>reqid_iter = Suc (reqid_iter (startup P0 7)), fh = fh (startup P0 7) @ [a, b]\<rparr> \<and>
          field2 ''req'' ''method'' a = Some (JStr ''POST'') \<and>
          field2 ''req'' ''url'' a = Some (JStr ''/api/auth/login'') \<and>
          field2 ''res'' ''statusCode'' b = Some (JInt 406)"
  proof -
    have pr: "pick_route auth_406 (sel d_auth) (pick d_auth) = Inr (''POST'', ''/api/auth/login'', 406)"
      by (simp add: pick_route_def random_choice_def d_auth_def auth_406_def)
    from pick_route_policy [of _ _ auth_406 _ d_auth P0 "startup P0 7"] valid_examples(2)
    show ?thesis unfolding pr by auto
  qed
  ultimately show ?thesis using AUTH_ROUTES_1 valid_examples(2) by blast
qed

lemma concat_pairs_length: "length (concat (map (\<lambda>(a, b). [a, b]) pairs)) = 2 * length pairs"
  by (induction pairs) auto

lemma concat_pairs_set:
  "e \<in> set (concat (map (\<lambda>(a, b). [a, b]) pairs)) \<Longrightarrow> \<exists>a b. (a, b) \<in> set pairs \<and> (e = a \<or> e = b)"
  by (induction pairs) auto

lemma list_all2_written_set:
  assumes "list_all2 (\<lambda>d (a, b). written P auth d a b) ds pairs" "(a, b) \<in> set pairs"
  shows "\<exists>d\<in>set ds. written P auth d a b"
proof -
  from assms(2) obtain i where i: "i < length pairs" "pairs ! i = (a, b)"
    by (auto simp: in_set_conv_nth)
  with assms(1) have "written P auth (ds ! i) a b" "i < length ds"
    by (auto simp: list_all2_conv_all_nth)
  then show ?thesis by (auto intro: nth_mem)
qed

text \<open>
  C7. The output of the program begins with exactly three banner records, written
  before every request record. The three share one \<open>time\<close> and have the keys \<open>level\<close>,
  \<open>time\<close>, \<open>pid\<close>, \<open>hostname\<close> and \<open>msg\<close> only: no \<open>reqId\<close>, no \<open>req\<close>, no \<open>res\<close>. Every
  record after them carries a \<open>reqId\<close>.
\<close>

theorem startup_banners:
  assumes "\<forall>d\<in>set ds. valid_draws auth d"
  shows "\<exists>s' reqs.
           main P auth t ds = Inr s' \<and>
           fh s' = mk_server_listening_entries P t @ reqs \<and>
           length (mk_server_listening_entries P t) = 3 \<and>
           (\<forall>e\<in>set (mk_server_listening_entries P t).
              field ''time'' e = Some (JInt t) \<and>
              keys e = [''level'', ''time'', ''pid'', ''hostname'', ''msg'']) \<and>
           length reqs = 2 * length ds \<and>
           (\<forall>e\<in>set reqs. \<exists>rid. field ''reqId'' e = Some (JStr rid))"
proof -
  from main_written [OF assms] obtain pairs
    where m: "main P auth t ds =
            Inr \<lparr>reqid_iter = 1 + length ds,
                 fh = mk_server_listening_entries P t @ concat (map (\<lambda>(a, b). [a, b]) pairs)\<rparr>"
      and l: "list_all2 (\<lambda>d (a, b). written P auth d a b) ds pairs" by blast
  let ?reqs = "concat (map (\<lambda>(a, b). [a, b]) pairs)"
  have len: "length ?reqs = 2 * length ds"
    using l by (simp add: concat_pairs_length list_all2_lengthD)
  have rid: "\<exists>rid. field ''reqId'' e = Some (JStr rid)" if "e \<in> set ?reqs" for e
  proof -
    from concat_pairs_set [OF that] obtain a b where ab: "(a, b) \<in> set pairs" "e = a \<or> e = b"
      by blast
    from list_all2_written_set [OF l ab(1)] obtain d where "written P auth d a b" by blast
    from written_reqId [OF this] ab(2) show ?thesis by auto
  qed
  show ?thesis
    using m len rid banners(1) [of P t] banners(2) [where P = P and t = t]
    by (intro exI [of _ "\<lparr>reqid_iter = 1 + length ds,
          fh = mk_server_listening_entries P t @ ?reqs\<rparr>"] exI [of _ ?reqs]) simp
qed

text \<open>A run of two iterations.\<close>

theorem startup_banners_witness:
  "valid_draws auth_406 d_get \<and> valid_draws auth_406 d_auth \<and>
   (\<exists>s' reqs.
      main P0 auth_406 7 [d_get, d_auth] = Inr s' \<and>
      fh s' = mk_server_listening_entries P0 7 @ reqs \<and>
      length (mk_server_listening_entries P0 7) = 3 \<and>
      (\<forall>e\<in>set (mk_server_listening_entries P0 7).
         field ''time'' e = Some (JInt 7) \<and>
         keys e = [''level'', ''time'', ''pid'', ''hostname'', ''msg'']) \<and>
      length reqs = 4 \<and>
      (\<forall>e\<in>set reqs. \<exists>rid. field ''reqId'' e = Some (JStr rid)))"
proof -
  have v: "\<forall>d\<in>set [d_get, d_auth]. valid_draws auth_406 d"
    using valid_examples by simp
  from startup_banners [OF v, of P0 7] valid_examples show ?thesis by simp
qed

text \<open>
  C8. The status code of the login entry is the one value drawn when \<open>AUTH_ROUTES\<close> is
  built, 200 or 406. In a run of any number of iterations, every iteration whose incoming
  record has the url \<open>/api/auth/login\<close> writes a completed record with that status code.
\<close>

theorem login_status_fixed:
  assumes "k < 2" and "AUTH_ROUTES k = Inr auth" and "\<forall>d\<in>set ds. valid_draws auth d"
  shows "([200, 406] ! k = (200::int) \<or> [200, 406] ! k = (406::int)) \<and>
         auth ! 1 = (''POST'', ''/api/auth/login'', [200, 406] ! k) \<and>
         (\<exists>s' pairs.
            program P k t ds = Inr s' \<and>
            fh s' = mk_server_listening_entries P t @ concat (map (\<lambda>(a, b). [a, b]) pairs) \<and>
            length pairs = length ds \<and>
            (\<forall>(a, b)\<in>set pairs.
               field2 ''req'' ''url'' a = Some (JStr ''/api/auth/login'') \<longrightarrow>
               field2 ''res'' ''statusCode'' b = Some (JInt ([200, 406] ! k))))"
proof (intro conjI)
  show "[200, 406] ! k = (200::int) \<or> [200, 406] ! k = (406::int)"
    by (rule login_status_cases [OF assms(1)])
  show "auth ! 1 = (''POST'', ''/api/auth/login'', [200, 406] ! k)"
    using AUTH_ROUTES_valid [OF assms(1)] assms(2) by auto
  from main_written [OF assms(3)] obtain pairs
    where m: "main P auth t ds =
            Inr \<lparr>reqid_iter = 1 + length ds,
                 fh = mk_server_listening_entries P t @ concat (map (\<lambda>(a, b). [a, b]) pairs)\<rparr>"
      and l: "list_all2 (\<lambda>d (a, b). written P auth d a b) ds pairs" by blast
  have "field2 ''res'' ''statusCode'' b = Some (JInt ([200, 406] ! k))"
    if "(a, b) \<in> set pairs" "field2 ''req'' ''url'' a = Some (JStr ''/api/auth/login'')" for a b
  proof -
    from list_all2_written_set [OF l that(1)] obtain d where "written P auth d a b" by blast
    from written_login [OF this assms(2,1) that(2)] show ?thesis .
  qed
  then have "\<forall>(a, b)\<in>set pairs.
               field2 ''req'' ''url'' a = Some (JStr ''/api/auth/login'') \<longrightarrow>
               field2 ''res'' ''statusCode'' b = Some (JInt ([200, 406] ! k))"
    by auto
  moreover have "length pairs = length ds"
    using l by (simp add: list_all2_lengthD)
  moreover have "program P k t ds = Inr \<lparr>reqid_iter = 1 + length ds,
                 fh = mk_server_listening_entries P t @ concat (map (\<lambda>(a, b). [a, b]) pairs)\<rparr>"
    using m assms(2) by (simp add: program_def)
  ultimately show "\<exists>s' pairs.
            program P k t ds = Inr s' \<and>
            fh s' = mk_server_listening_entries P t @ concat (map (\<lambda>(a, b). [a, b]) pairs) \<and>
            length pairs = length ds \<and>
            (\<forall>(a, b)\<in>set pairs.
               field2 ''req'' ''url'' a = Some (JStr ''/api/auth/login'') \<longrightarrow>
               field2 ''res'' ''statusCode'' b = Some (JInt ([200, 406] ! k)))"
    by (intro exI [of _ "\<lparr>reqid_iter = 1 + length ds,
          fh = mk_server_listening_entries P t @ concat (map (\<lambda>(a, b). [a, b]) pairs)\<rparr>"]
        exI [of _ pairs]) simp
qed

text \<open>A run of three iterations, two of which pick the login entry, after the draw of 406.\<close>

theorem login_status_fixed_witness:
  "(1::nat) < 2 \<and> AUTH_ROUTES 1 = Inr auth_406 \<and>
   valid_draws auth_406 d_auth \<and> valid_draws auth_406 d_get \<and>
   auth_406 ! 1 = (''POST'', ''/api/auth/login'', 406) \<and>
   (\<exists>s' pairs.
      program P0 1 7 [d_auth, d_get, d_auth] = Inr s' \<and>
      fh s' = mk_server_listening_entries P0 7 @ concat (map (\<lambda>(a, b). [a, b]) pairs) \<and>
      length pairs = length [d_auth, d_get, d_auth] \<and>
      (\<forall>(a, b)\<in>set pairs.
         field2 ''req'' ''url'' a = Some (JStr ''/api/auth/login'') \<longrightarrow>
         field2 ''res'' ''statusCode'' b = Some (JInt 406)))"
proof -
  have k: "(1::nat) < 2" by simp
  have v: "\<forall>d\<in>set [d_auth, d_get, d_auth]. valid_draws auth_406 d"
    using valid_examples by simp
  have e: "[200, 406 :: int] ! 1 = 406" by simp
  note run = login_status_fixed [OF k AUTH_ROUTES_1 v, of P0 7, unfolded e]
  from run k AUTH_ROUTES_1 valid_examples show ?thesis by blast
qed

end
